theory Spec2Isabelle
  imports Complex_Main "HOL-Library.AList" "HOL-Library.Multiset" "HOL-Library.Sublist"
    "HOL-Library.Char_ord" "HOL-Library.List_Lexorder"
begin

section \<open>Leaderboard fetch/transform/render: the pure core of the two scripts\<close>

text \<open>
  The two scripts \<^verbatim>\<open>scripts/fetch_data.py\<close> and \<^verbatim>\<open>scripts/generate_html.py\<close> are
  embedded function by function. Network and file access are left out; what is modelled is
  everything between the fetched tables and the written text.

  Conventions of the embedding.
  \<^item> A Python \<^verbatim>\<open>str\<close> is a \<^typ>\<open>string\<close> (the UTF-8 bytes of the text). With
    the library theories \<open>Char_ord\<close> and \<open>List_Lexorder\<close> the order on
    \<^typ>\<open>string\<close> is the lexicographic order of byte values, which on UTF-8 text is
    Python's order by code points.
  \<^item> A Python \<^verbatim>\<open>dict\<close> that is iterated or serialised is an association list kept in
    insertion order (\<^const>\<open>AList.update\<close> overwrites in place or appends, as a
    \<^verbatim>\<open>dict\<close> does); a \<^verbatim>\<open>dict\<close> only used as a lookup table is a map.
  \<^item> Python numbers (\<^verbatim>\<open>int\<close> and \<^verbatim>\<open>float\<close> read from JSON) that enter arithmetic
    are exact rationals (\<^typ>\<open>rat\<close>): the rounding error of binary floating point is not
    modelled, and neither are NaN and the infinities.
  \<^item> Every exception the modelled code can raise is a value \<open>Inl e\<close> of the result.
\<close>

datatype error =
    IndexError
  | KeyError
  | ValueError
  | OverflowError
  | PlaceholderMissing

definition ebind :: "error + 'a \<Rightarrow> ('a \<Rightarrow> error + 'b) \<Rightarrow> error + 'b" where
  "ebind x f = (case x of Inl e \<Rightarrow> Inl e | Inr v \<Rightarrow> f v)"

text \<open>\<^verbatim>\<open>xs[i]\<close> for a non-negative index: Python raises \<^verbatim>\<open>IndexError\<close> out of range.\<close>

definition getitem :: "'a list \<Rightarrow> nat \<Rightarrow> error + 'a" where
  "getitem xs i = (if i < length xs then Inr (xs ! i) else Inl IndexError)"

subsection \<open>Table normalizer: \<^verbatim>\<open>parse_rows\<close>\<close>

text \<open>
  A JSON cell of a raw table. \<^verbatim>\<open>parse_rows\<close> never inspects a cell, so its model is
  parametric in the cell type; \<open>cell\<close> is the instance the service delivers.
\<close>

datatype cell = Str string | Num rat | Null

text \<open>
  A metric record, the \<^verbatim>\<open>dict\<close> with the keys \<^verbatim>\<open>subdataset\<close>, \<^verbatim>\<open>frequency\<close>,
  \<^verbatim>\<open>cutoff\<close> and \<^verbatim>\<open>values\<close>. \<open>'k\<close> is the type of the three grouping keys, \<open>'v\<close>
  the type of a model's value.
\<close>

record ('k, 'v) metric_record =
  subdataset :: 'k
  frequency :: 'k
  cutoff :: 'k
  "values" :: "(string \<times> 'v) list"

text \<open>
  The inner loop \<^verbatim>\<open>for i, model in enumerate(model_cols): values[model] = row[3 + i]\<close>.
\<close>

fun row_values :: "'c list \<Rightarrow> (nat \<times> string) list \<Rightarrow> (string \<times> 'c) list
    \<Rightarrow> error + (string \<times> 'c) list" where
  "row_values row [] vals = Inr vals"
| "row_values row ((i, model) # rest) vals =
     ebind (getitem row (3 + i)) (\<lambda>val. row_values row rest (AList.update model val vals))"

text \<open>The body of \<^verbatim>\<open>for row in raw_rows\<close>, up to the record that is appended.\<close>

definition parse_row :: "string list \<Rightarrow> 'c list \<Rightarrow> error + ('c, 'c) metric_record" where
  "parse_row model_cols row =
     ebind (getitem row 0) (\<lambda>sd.
     ebind (getitem row 1) (\<lambda>fr.
     ebind (getitem row 2) (\<lambda>cu.
     ebind (row_values row (enumerate 0 model_cols) []) (\<lambda>vals.
       Inr \<lparr>subdataset = sd, frequency = fr, cutoff = cu, values = vals\<rparr>))))"

fun parse_rows_loop :: "string list \<Rightarrow> 'c list list \<Rightarrow> ('c, 'c) metric_record list
    \<Rightarrow> error + ('c, 'c) metric_record list" where
  "parse_rows_loop model_cols [] records = Inr records"
| "parse_rows_loop model_cols (row # rows) records =
     ebind (parse_row model_cols row) (\<lambda>r. parse_rows_loop model_cols rows (records @ [r]))"

definition parse_rows :: "string list \<Rightarrow> 'c list list
    \<Rightarrow> error + (('c, 'c) metric_record list \<times> string list)" where
  "parse_rows headers raw_rows =
     (let model_cols = drop 3 headers
      in ebind (parse_rows_loop model_cols raw_rows []) (\<lambda>records. Inr (records, model_cols)))"

text \<open>
  The size condition under which no row access of \<^verbatim>\<open>parse_rows\<close> is out of range, as the
  claim words it: at least three headers, and no row shorter than the header list.
\<close>

definition table_ok :: "string list \<Rightarrow> 'c list list \<Rightarrow> bool" where
  "table_ok headers raw_rows \<longleftrightarrow>
     3 \<le> length headers \<and> list_all (\<lambda>row. length headers \<le> length row) raw_rows"

text \<open>The exact size condition: every row has the three key cells and one cell per model column.\<close>

definition rows_wide :: "string list \<Rightarrow> 'c list list \<Rightarrow> bool" where
  "rows_wide headers raw_rows \<longleftrightarrow>
     list_all (\<lambda>row. 3 \<le> length row \<and> length headers \<le> length row) raw_rows"

text \<open>What one row becomes, in closed form.\<close>

definition record_of_row :: "string list \<Rightarrow> 'c list \<Rightarrow> ('c, 'c) metric_record" where
  "record_of_row model_cols row =
     \<lparr>subdataset = row ! 0, frequency = row ! 1, cutoff = row ! 2,
      values = fold (\<lambda>(k, v). AList.update k v) (zip model_cols (drop 3 row)) []\<rparr>"

subsection \<open>Template renderer: \<^verbatim>\<open>generate_html.main\<close>, the injection step\<close>

text \<open>The literal token looked for in the template.\<close>

definition PLACEHOLDER :: string where
  "PLACEHOLDER = ''/* __DATA_PLACEHOLDER__ */''"

text \<open>Python's \<^verbatim>\<open>old in s\<close> on strings: some suffix of \<open>s\<close> starts with \<open>old\<close>.\<close>

fun contains :: "string \<Rightarrow> string \<Rightarrow> bool" where
  "contains old [] = (old = [])"
| "contains old (c # cs) = (prefix old (c # cs) \<or> contains old cs)"

text \<open>
  Python's \<^verbatim>\<open>s.replace(old, new)\<close>: every occurrence of \<open>old\<close>, found from the left and
  not overlapping an earlier one, is replaced. For the empty \<open>old\<close> Python puts \<open>new\<close>
  before every character and at the end.
\<close>

function replace :: "string \<Rightarrow> string \<Rightarrow> string \<Rightarrow> string" where
  "replace old new s =
     (if old = [] then new @ concat (map (\<lambda>c. c # new) s)
      else if s = [] then []
      else if prefix old s then new @ replace old new (drop (length old) s)
      else hd s # replace old new (tl s))"
  by pat_completeness auto
termination
  by (relation "measure (\<lambda>(old, new, s). length s)") auto

declare replace.simps [simp del]

text \<open>
  Lines 41 to 48 of \<^verbatim>\<open>generate_html.py\<close>. \<open>data_json\<close> is the compact serialisation
  \<^verbatim>\<open>json.dumps(data, separators=(",", ":"))\<close>; the result is the text written to
  \<^verbatim>\<open>index.html\<close>, or the error with which the script exits.
\<close>

definition render :: "string \<Rightarrow> string \<Rightarrow> error + string" where
  "render data_json template =
     (let data_line = ''const DATA = '' @ data_json @ '';''
      in if \<not> contains PLACEHOLDER template then Inl PlaceholderMissing
         else Inr (replace PLACEHOLDER data_line template))"

text \<open>The positions at which \<open>old\<close> occurs in \<open>s\<close> (overlapping occurrences included).\<close>

definition occurrences :: "string \<Rightarrow> string \<Rightarrow> nat list" where
  "occurrences old s = filter (\<lambda>i. prefix old (drop i s)) [0..<Suc (length s)]"

subsection \<open>Summary aggregator: \<^verbatim>\<open>compute_summary\<close>\<close>

text \<open>The module constant \<^verbatim>\<open>MODELS\<close>, the canonical model list.\<close>

definition MODELS :: "string list" where
  "MODELS = [''AutoARIMA'', ''AutoCES'', ''AutoETS'', ''Chronos'',
             ''DynamicOptimizedTheta'', ''HistoricAverage'', ''Moirai'',
             ''Prophet'', ''SeasonalNaive'', ''TiRex'', ''TimesFM'', ''ZeroModel'']"

text \<open>
  From here on a record has the types of the data model: the three grouping keys are strings
  and a model's value is a number or \<^verbatim>\<open>None\<close>.
\<close>

type_synonym mrecord = "(string, rat option) metric_record"

text \<open>
  \<^verbatim>\<open>d.get(k)\<close> on the \<^verbatim>\<open>values\<close> dict: \<^verbatim>\<open>None\<close> for a missing key as for a key that
  holds \<^verbatim>\<open>None\<close>.
\<close>

definition dict_get :: "(string \<times> 'v option) list \<Rightarrow> string \<Rightarrow> 'v option" where
  "dict_get d k = (case map_of d k of None \<Rightarrow> None | Some v \<Rightarrow> v)"

text \<open>\<^verbatim>\<open>d[k]\<close> on a lookup table: \<^verbatim>\<open>KeyError\<close> for a missing key.\<close>

definition lookup :: "('k \<rightharpoonup> 'v) \<Rightarrow> 'k \<Rightarrow> error + 'v" where
  "lookup d k = (case d k of None \<Rightarrow> Inl KeyError | Some v \<Rightarrow> Inr v)"

text \<open>The dict comprehension \<^verbatim>\<open>{m: x for m in models}\<close>.\<close>

definition dict_init :: "'k list \<Rightarrow> 'v \<Rightarrow> ('k \<rightharpoonup> 'v)" where
  "dict_init models x = fold (\<lambda>m d. d(m \<mapsto> x)) models Map.empty"

text \<open>A \<^verbatim>\<open>for\<close> loop whose body may raise: the first error ends the loop.\<close>

fun efold :: "('a \<Rightarrow> 's \<Rightarrow> error + 's) \<Rightarrow> 'a list \<Rightarrow> 's \<Rightarrow> error + 's" where
  "efold f [] s = Inr s"
| "efold f (x # xs) s = ebind (f x s) (efold f xs)"

text \<open>
  Lines 145 to 147, the body of the two nested loops that collect a model's values:
  \<^verbatim>\<open>v = r["values"].get(m)\<close>, and \<^verbatim>\<open>model_vals[m].append(v)\<close> unless \<open>v\<close> is \<^verbatim>\<open>None\<close>.
\<close>

definition collect_step :: "mrecord \<Rightarrow> string \<Rightarrow> (string \<rightharpoonup> rat list)
    \<Rightarrow> error + (string \<rightharpoonup> rat list)" where
  "collect_step r m model_vals =
     (case dict_get (values r) m of
        None \<Rightarrow> Inr model_vals
      | Some v \<Rightarrow> ebind (lookup model_vals m) (\<lambda>vs. Inr (model_vals(m \<mapsto> vs @ [v]))))"

text \<open>Line 152: \<^verbatim>\<open>sum(vals) / len(vals) if vals else None\<close>.\<close>

definition avg_of :: "rat list \<Rightarrow> rat option" where
  "avg_of vals = (if vals \<noteq> [] then Some (sum_list vals / of_nat (length vals)) else None)"

text \<open>
  Lines 159 to 161: the pairs \<open>(m, v)\<close> of one record in the order of \<open>models\<close>, those with
  \<open>v\<close> \<^verbatim>\<open>None\<close> dropped, sorted by \<open>v\<close>. \<^verbatim>\<open>list.sort\<close> is stable, as \<^const>\<open>sort_key\<close> is.
\<close>

definition present_vals :: "string list \<Rightarrow> mrecord \<Rightarrow> (string \<times> rat) list" where
  "present_vals models r =
     (let vals = map (\<lambda>m. (m, dict_get (values r) m)) models
      in List.map_filter (\<lambda>(m, v). map_option (Pair m) v) vals)"

definition ranked_vals :: "string list \<Rightarrow> mrecord \<Rightarrow> (string \<times> rat) list" where
  "ranked_vals models r = sort_key snd (present_vals models r)"

text \<open>
  Lines 163 and 164, the body of \<^verbatim>\<open>for rank_idx, (m, _) in enumerate(vals)\<close>:
  \<^verbatim>\<open>rank_accum[m] += rank_idx + 1\<close> and \<^verbatim>\<open>rank_count[m] += 1\<close>.
\<close>

definition rank_step :: "nat \<times> string \<times> rat \<Rightarrow> (string \<rightharpoonup> int) \<times> (string \<rightharpoonup> int)
    \<Rightarrow> error + (string \<rightharpoonup> int) \<times> (string \<rightharpoonup> int)" where
  "rank_step x s =
     (case (x, s) of ((rank_idx, m, _), (rank_accum, rank_count)) \<Rightarrow>
        ebind (lookup rank_accum m) (\<lambda>a.
        ebind (lookup rank_count m) (\<lambda>c.
          Inr (rank_accum(m \<mapsto> a + (int rank_idx + 1)), rank_count(m \<mapsto> c + 1)))))"

text \<open>Lines 159 to 164, the body of the ranking loop \<^verbatim>\<open>for r in records\<close>.\<close>

definition rank_record :: "string list \<Rightarrow> mrecord \<Rightarrow> (string \<rightharpoonup> int) \<times> (string \<rightharpoonup> int)
    \<Rightarrow> error + (string \<rightharpoonup> int) \<times> (string \<rightharpoonup> int)" where
  "rank_record models r s = efold rank_step (enumerate 0 (ranked_vals models r)) s"

text \<open>
  Line 168: \<^verbatim>\<open>rank_accum[m] / rank_count[m] if rank_count[m] > 0 else None\<close>, the true
  division of two integers.
\<close>

definition avg_rank_step :: "(string \<rightharpoonup> int) \<Rightarrow> (string \<rightharpoonup> int) \<Rightarrow> string
    \<Rightarrow> (string \<rightharpoonup> rat option) \<Rightarrow> error + (string \<rightharpoonup> rat option)" where
  "avg_rank_step rank_accum rank_count m avg_rank =
     ebind (lookup rank_count m) (\<lambda>c.
       if c > 0 then
         ebind (lookup rank_accum m) (\<lambda>a. Inr (avg_rank(m \<mapsto> Some (of_int a / of_int c))))
       else Inr (avg_rank(m \<mapsto> None)))"

text \<open>The nested function \<^verbatim>\<open>avg_metric_and_rank(records, models)\<close>, lines 140 to 170.\<close>

definition avg_metric_and_rank :: "mrecord list \<Rightarrow> string list
    \<Rightarrow> error + (string \<rightharpoonup> rat option) \<times> (string \<rightharpoonup> rat option)" where
  "avg_metric_and_rank records models =
     ebind (efold (\<lambda>r. efold (collect_step r) models) records (dict_init models []))
       (\<lambda>model_vals.
     ebind (efold (\<lambda>m avg_metric.
              ebind (lookup model_vals m) (\<lambda>vals. Inr (avg_metric(m \<mapsto> avg_of vals))))
            models Map.empty)
       (\<lambda>avg_metric.
     ebind (efold (rank_record models) records (dict_init models 0, dict_init models 0))
       (\<lambda>(rank_accum, rank_count).
     ebind (efold (avg_rank_step rank_accum rank_count) models Map.empty)
       (\<lambda>avg_rank. Inr (avg_metric, avg_rank)))))"

text \<open>
  Python's \<^verbatim>\<open>round(x, 3)\<close> on the exact value: the nearest multiple of one thousandth,
  a value half way between two going to the even one.
\<close>

definition round_half_even :: "rat \<Rightarrow> int" where
  "round_half_even y =
     (let f = \<lfloor>y\<rfloor>; d = y - of_int f
      in if d < 1 / 2 then f else if 1 / 2 < d then f + 1 else if even f then f else f + 1)"

definition round3 :: "rat \<Rightarrow> rat" where
  "round3 x = of_int (round_half_even (x * 1000)) / 1000"

text \<open>An entry of the summary, and the entry with the key \<^verbatim>\<open>_combined\<close> it carries until the sort.\<close>

record summary_entry =
  model :: string
  avg_mase :: "rat option"
  avg_crps :: "rat option"
  rank_mase :: "rat option"
  rank_crps :: "rat option"

record scored_entry = summary_entry +
  combined :: rat

text \<open>
  Lines 178 to 186: the sum and the count of the rank means that are not \<^verbatim>\<open>None\<close>, and
  \<^verbatim>\<open>combined / count if count > 0 else 999\<close>.
\<close>

definition combined_rank :: "rat option \<Rightarrow> rat option \<Rightarrow> rat" where
  "combined_rank mr cr =
     (let combined = 0; count = (0::nat);
          (combined, count) = (case mr of None \<Rightarrow> (combined, count)
                               | Some x \<Rightarrow> (combined + x, count + 1));
          (combined, count) = (case cr of None \<Rightarrow> (combined, count)
                               | Some x \<Rightarrow> (combined + x, count + 1))
      in if count > 0 then combined / of_nat count else 999)"

text \<open>Lines 178 to 195, the body of \<^verbatim>\<open>for m in models\<close>: the entry appended for \<open>m\<close>.\<close>

definition scored_entry_of :: "(string \<rightharpoonup> rat option) \<Rightarrow> (string \<rightharpoonup> rat option)
    \<Rightarrow> (string \<rightharpoonup> rat option) \<Rightarrow> (string \<rightharpoonup> rat option) \<Rightarrow> string \<Rightarrow> error + scored_entry" where
  "scored_entry_of mase_avg mase_rank crps_avg crps_rank m =
     ebind (lookup mase_rank m) (\<lambda>mr.
     ebind (lookup crps_rank m) (\<lambda>cr.
     ebind (lookup mase_avg m) (\<lambda>ma.
     ebind (lookup crps_avg m) (\<lambda>ca.
       Inr \<lparr>model = m,
            avg_mase = map_option round3 ma, avg_crps = map_option round3 ca,
            rank_mase = map_option round3 mr, rank_crps = map_option round3 cr,
            combined = combined_rank mr cr\<rparr>))))"

text \<open>The three medal glyphs U+1F947, U+1F948 and U+1F949, as UTF-8.\<close>

definition medals :: "string list" where
  "medals = [[CHR 0xF0, CHR 0x9F, CHR 0xA5, CHR 0x87],
             [CHR 0xF0, CHR 0x9F, CHR 0xA5, CHR 0x88],
             [CHR 0xF0, CHR 0x9F, CHR 0xA5, CHR 0x89]]"

text \<open>
  Lines 201 to 204, the body of \<^verbatim>\<open>for i, s in enumerate(summary)\<close>: the medal in front of
  the name of the first three, and the key \<^verbatim>\<open>_combined\<close> deleted.
\<close>

definition decorate :: "nat \<times> scored_entry \<Rightarrow> summary_entry" where
  "decorate x =
     (case x of (i, s) \<Rightarrow>
        summary_entry.truncate
          (if i < 3 then s\<lparr>model := medals ! i @ '' '' @ model s\<rparr> else s))"

text \<open>\<^verbatim>\<open>compute_summary(mase_records, crps_records, models)\<close>.\<close>

definition compute_summary :: "mrecord list \<Rightarrow> mrecord list \<Rightarrow> string list
    \<Rightarrow> error + summary_entry list" where
  "compute_summary mase_records crps_records models =
     ebind (avg_metric_and_rank mase_records models) (\<lambda>(mase_avg, mase_rank).
     ebind (avg_metric_and_rank crps_records models) (\<lambda>(crps_avg, crps_rank).
     ebind (efold (\<lambda>m summary.
              ebind (scored_entry_of mase_avg mase_rank crps_avg crps_rank m)
                (\<lambda>e. Inr (summary @ [e])))
            models [])
       (\<lambda>summary.
          let summary = sort_key combined summary
          in Inr (map decorate (enumerate 0 summary)))))"

text \<open>
  Closed forms used to state what the loops compute. \<open>model_hits r models k\<close> is what one
  record appends to \<^verbatim>\<open>model_vals[k]\<close>; \<open>values_of records m\<close> is the list of the values of
  \<open>m\<close> that are present, in record order; \<open>rank_sum n vals k\<close> and \<open>rank_hits vals k\<close> are what
  the enumeration of a ranked list, counted from \<open>n\<close>, adds to \<^verbatim>\<open>rank_accum[k]\<close> and to
  \<^verbatim>\<open>rank_count[k]\<close>.
\<close>

definition model_hits :: "mrecord \<Rightarrow> string list \<Rightarrow> string \<Rightarrow> rat list" where
  "model_hits r models k =
     (case dict_get (values r) k of None \<Rightarrow> [] | Some v \<Rightarrow> replicate (count_list models k) v)"

definition values_of :: "mrecord list \<Rightarrow> string \<Rightarrow> rat list" where
  "values_of records m = List.map_filter (\<lambda>r. dict_get (values r) m) records"

fun rank_sum :: "nat \<Rightarrow> (string \<times> rat) list \<Rightarrow> string \<Rightarrow> int" where
  "rank_sum n [] k = 0"
| "rank_sum n (x # xs) k = (if fst x = k then int n + 1 else 0) + rank_sum (Suc n) xs k"

definition rank_hits :: "(string \<times> rat) list \<Rightarrow> string \<Rightarrow> int" where
  "rank_hits vals k = int (count_list (map fst vals) k)"

definition rank_total :: "mrecord list \<Rightarrow> string list \<Rightarrow> string \<Rightarrow> int" where
  "rank_total records models k = (\<Sum>r\<leftarrow>records. rank_sum 0 (ranked_vals models r) k)"

definition rank_times :: "mrecord list \<Rightarrow> string list \<Rightarrow> string \<Rightarrow> int" where
  "rank_times records models k = (\<Sum>r\<leftarrow>records. rank_hits (ranked_vals models r) k)"

definition avg_metric_of :: "mrecord list \<Rightarrow> string list \<Rightarrow> (string \<rightharpoonup> rat option)" where
  "avg_metric_of records models =
     (\<lambda>k. if k \<in> set models
          then Some (avg_of (concat (map (\<lambda>r. model_hits r models k) records))) else None)"

definition avg_rank_of :: "mrecord list \<Rightarrow> string list \<Rightarrow> (string \<rightharpoonup> rat option)" where
  "avg_rank_of records models =
     (\<lambda>k. if k \<in> set models
          then Some (if rank_times records models k > 0
                     then Some (of_int (rank_total records models k)
                                / of_int (rank_times records models k))
                     else None)
          else None)"

text \<open>\<open>before xs a b\<close>: in the list \<open>xs\<close>, an occurrence of \<open>a\<close> is followed later by one of \<open>b\<close>.\<close>

definition before :: "'a list \<Rightarrow> 'a \<Rightarrow> 'a \<Rightarrow> bool" where
  "before xs a b \<longleftrightarrow> (\<exists>p q w. xs = p @ a # q @ b # w)"

text \<open>
  The rank mean of a model and the entry built for it, in closed form: what
  \<^verbatim>\<open>avg_rank[k]\<close> holds after the ranking loop, and what the loop over the models appends.
\<close>

definition mean_rank :: "mrecord list \<Rightarrow> string list \<Rightarrow> string \<Rightarrow> rat option" where
  "mean_rank records models k =
     (if rank_times records models k > 0
      then Some (of_int (rank_total records models k) / of_int (rank_times records models k))
      else None)"

definition scored_of :: "mrecord list \<Rightarrow> mrecord list \<Rightarrow> string list \<Rightarrow> string
    \<Rightarrow> scored_entry" where
  "scored_of mase crps models m =
     \<lparr>model = m,
      avg_mase = map_option round3 (avg_of (values_of mase m)),
      avg_crps = map_option round3 (avg_of (values_of crps m)),
      rank_mase = map_option round3 (mean_rank mase models m),
      rank_crps = map_option round3 (mean_rank crps models m),
      combined = combined_rank (mean_rank mase models m) (mean_rank crps models m)\<rparr>"

subsection \<open>Time-window filter and dataset assembly: \<^verbatim>\<open>fetch_data.main\<close>\<close>

text \<open>\<^verbatim>\<open>s.split(sep)\<close> for a separator of one character: always at least one part.\<close>

fun split_on :: "char \<Rightarrow> string \<Rightarrow> string list" where
  "split_on sep [] = [[]]"
| "split_on sep (c # cs) =
     (if c = sep then [] # split_on sep cs
      else (case split_on sep cs of p # ps \<Rightarrow> (c # p) # ps | [] \<Rightarrow> [[c]]))"

text \<open>
  \<^verbatim>\<open>int(s)\<close> on a string, for ASCII text: white space around the number is dropped, one
  sign may lead, and the digits may be grouped by single underscores. Anything else is a
  \<^verbatim>\<open>ValueError\<close>. (Python also reads decimal digits and white space beyond ASCII, and the
  interpreter may bound the number of digits; text of that kind is outside this model.)
\<close>

definition is_digit :: "char \<Rightarrow> bool" where
  "is_digit c \<longleftrightarrow> CHR ''0'' \<le> c \<and> c \<le> CHR ''9''"

definition digit_val :: "char \<Rightarrow> int" where
  "digit_val c = of_char c - 48"

definition is_space :: "char \<Rightarrow> bool" where
  "is_space c \<longleftrightarrow>
     c \<in> set [CHR 0x09, CHR 0x0A, CHR 0x0B, CHR 0x0C, CHR 0x0D,
               CHR 0x1C, CHR 0x1D, CHR 0x1E, CHR 0x1F, CHR 0x20]"

definition strip :: "string \<Rightarrow> string" where
  "strip s = rev (dropWhile is_space (rev (dropWhile is_space s)))"

fun digits_acc :: "int \<Rightarrow> string \<Rightarrow> int option" where
  "digits_acc acc [] = Some acc"
| "digits_acc acc (c # cs) =
     (if is_digit c then digits_acc (10 * acc + digit_val c) cs
      else if c = CHR ''_'' then
        (case cs of
           [] \<Rightarrow> None
         | d # ds \<Rightarrow> if is_digit d then digits_acc (10 * acc + digit_val d) ds else None)
      else None)"

definition py_int :: "string \<Rightarrow> error + int" where
  "py_int s =
     (let t = strip s;
          (neg, body) = (case t of
                           [] \<Rightarrow> (False, [])
                         | c # cs \<Rightarrow> if c = CHR ''-'' then (True, cs)
                                     else if c = CHR ''+'' then (False, cs) else (False, t))
      in case body of
           [] \<Rightarrow> Inl ValueError
         | c # cs \<Rightarrow>
             if is_digit c then
               (case digits_acc (digit_val c) cs of
                  None \<Rightarrow> Inl ValueError
                | Some n \<Rightarrow> Inr (if neg then - n else n))
             else Inl ValueError)"

text \<open>
  The calendar of \<^verbatim>\<open>datetime\<close>. A \<^verbatim>\<open>datetime\<close> built from year, month and day alone (its
  time of day is midnight) is represented by its proleptic Gregorian ordinal, the day number
  that \<^verbatim>\<open>datetime\<close> itself uses for arithmetic; day 1 is 0001-01-01. Such values compare
  as their ordinals do.
\<close>

definition is_leap :: "int \<Rightarrow> bool" where
  "is_leap y \<longleftrightarrow> y mod 4 = 0 \<and> (y mod 100 \<noteq> 0 \<or> y mod 400 = 0)"

definition days_in_month :: "int \<Rightarrow> int \<Rightarrow> int" where
  "days_in_month y m =
     (if m = 2 then (if is_leap y then 29 else 28)
      else if m = 4 \<or> m = 6 \<or> m = 9 \<or> m = 11 then 30 else 31)"

definition days_before_year :: "int \<Rightarrow> int" where
  "days_before_year y = (y - 1) * 365 + (y - 1) div 4 - (y - 1) div 100 + (y - 1) div 400"

definition days_before_month :: "int \<Rightarrow> int \<Rightarrow> int" where
  "days_before_month y m = (\<Sum>k\<leftarrow>[1..m - 1]. days_in_month y k)"

definition MAXORDINAL :: int where
  "MAXORDINAL = 3652059"

text \<open>\<^verbatim>\<open>datetime(y, m, d)\<close>: a \<^verbatim>\<open>ValueError\<close> unless the three numbers name a day.\<close>

definition datetime :: "int \<Rightarrow> int \<Rightarrow> int \<Rightarrow> error + int" where
  "datetime y m d =
     (if 1 \<le> y \<and> y \<le> 9999 \<and> 1 \<le> m \<and> m \<le> 12 \<and> 1 \<le> d \<and> d \<le> days_in_month y m
      then Inr (days_before_year y + days_before_month y m + d)
      else Inl ValueError)"

text \<open>\<^verbatim>\<open>dt - timedelta(days=n)\<close>: an \<^verbatim>\<open>OverflowError\<close> when the result leaves the calendar.\<close>

definition minus_days :: "int \<Rightarrow> int \<Rightarrow> error + int" where
  "minus_days dt n =
     (if 0 < dt - n \<and> dt - n \<le> MAXORDINAL then Inr (dt - n) else Inl OverflowError)"

text \<open>
  Lines 231 and 232, and again 236 and 237: the cutoff split at the hyphens and its first
  three parts read as year, month and day. The hour, the fourth part, is not looked at.
\<close>

definition parse_date :: "string \<Rightarrow> error + int" where
  "parse_date cutoff_str =
     (let parts = split_on CHR ''-'' cutoff_str
      in ebind (getitem parts 0) (\<lambda>p0. ebind (py_int p0) (\<lambda>y.
         ebind (getitem parts 1) (\<lambda>p1. ebind (py_int p1) (\<lambda>m.
         ebind (getitem parts 2) (\<lambda>p2. ebind (py_int p2) (\<lambda>d.
           datetime y m d)))))))"

text \<open>The nested function \<^verbatim>\<open>is_within_3_months\<close>, with the threshold it closes over.\<close>

definition is_within_3_months :: "int \<Rightarrow> string \<Rightarrow> error + bool" where
  "is_within_3_months cutoff_threshold cutoff_str =
     ebind (parse_date cutoff_str) (\<lambda>dt. Inr (cutoff_threshold \<le> dt))"

text \<open>A list comprehension \<^verbatim>\<open>[x for x in xs if p(x)]\<close> whose condition may raise.\<close>

fun efilter :: "('a \<Rightarrow> error + bool) \<Rightarrow> 'a list \<Rightarrow> error + 'a list" where
  "efilter p [] = Inr []"
| "efilter p (x # xs) =
     ebind (p x) (\<lambda>b. ebind (efilter p xs) (\<lambda>ys. Inr (if b then x # ys else ys)))"

text \<open>
  Lines 228 to 246 of \<^verbatim>\<open>main\<close>: the two record lists after the filter. \<^verbatim>\<open>sorted(set(...))\<close>
  is the sorted list of the different values.
\<close>

definition time_window :: "mrecord list \<Rightarrow> mrecord list \<Rightarrow> error + mrecord list \<times> mrecord list" where
  "time_window mase_records crps_records =
     (let all_cutoffs = sort (remdups (map cutoff (mase_records @ crps_records)))
      in if all_cutoffs \<noteq> [] then
           ebind (parse_date (last all_cutoffs)) (\<lambda>latest_date.
           ebind (minus_days latest_date 90) (\<lambda>cutoff_threshold.
           ebind (efilter (\<lambda>r. is_within_3_months cutoff_threshold (cutoff r)) mase_records)
             (\<lambda>mase_records.
           ebind (efilter (\<lambda>r. is_within_3_months cutoff_threshold (cutoff r)) crps_records)
             (\<lambda>crps_records. Inr (mase_records, crps_records)))))
         else Inr (mase_records, crps_records))"

text \<open>The object \<^verbatim>\<open>data\<close> that is written to \<^verbatim>\<open>leaderboard.json\<close>.\<close>

record dataset =
  data_models :: "string list"
  data_cutoffs :: "string list"
  data_subdatasets :: "string list"
  data_frequencies :: "string list"
  data_mase :: "mrecord list"
  data_crps :: "mrecord list"
  data_summary :: "summary_entry list"

text \<open>
  Lines 224 to 266 of \<^verbatim>\<open>main\<close>, from the parsed record lists to \<^verbatim>\<open>data\<close>: the filter, the
  three sorted sets of the filtered records, the summary, and the packaging.
\<close>

definition main_data :: "mrecord list \<Rightarrow> mrecord list \<Rightarrow> error + dataset" where
  "main_data mase_records crps_records =
     (let models = MODELS
      in ebind (time_window mase_records crps_records) (\<lambda>(mase_records, crps_records).
           let all_records = mase_records @ crps_records;
               cutoffs = sort (remdups (map cutoff all_records));
               subdatasets = sort (remdups (map subdataset all_records));
               frequencies = sort (remdups (map frequency all_records))
           in ebind (compute_summary mase_records crps_records models) (\<lambda>summary.
                Inr \<lparr>data_models = models, data_cutoffs = cutoffs,
                     data_subdatasets = subdatasets, data_frequencies = frequencies,
                     data_mase = mase_records, data_crps = crps_records,
                     data_summary = summary\<rparr>)))"

text \<open>
  The format \<^verbatim>\<open>YYYY-MM-DD-HH\<close> of a cutoff, as far as the date goes: four, two and two
  decimal digits, each group followed by a hyphen.
\<close>

definition cutoff_format :: "string \<Rightarrow> bool" where
  "cutoff_format s \<longleftrightarrow>
     11 \<le> length s \<and>
     list_all is_digit (take 4 s) \<and> s ! 4 = CHR ''-'' \<and>
     list_all is_digit (take 2 (drop 5 s)) \<and> s ! 7 = CHR ''-'' \<and>
     list_all is_digit (take 2 (drop 8 s)) \<and> s ! 10 = CHR ''-''"

section \<open>Properties\<close>

subsection \<open>Table normalizer\<close>

lemma ebind_Inr [simp]: "ebind (Inr v) f = f v" by (simp add: ebind_def)
lemma ebind_Inl [simp]: "ebind (Inl e) f = Inl e" by (simp add: ebind_def)

lemma ebind_eq_Inr: "ebind x f = Inr y \<longleftrightarrow> (\<exists>v. x = Inr v \<and> f v = Inr y)"
  by (cases x) simp_all

lemma getitem_Inr: "getitem xs i = Inr v \<longleftrightarrow> i < length xs \<and> v = xs ! i"
  by (auto simp: getitem_def)

lemma getitem_in [simp]: "i < length xs \<Longrightarrow> getitem xs i = Inr (xs ! i)"
  by (simp add: getitem_def)

lemma getitem_out [simp]: "\<not> i < length xs \<Longrightarrow> getitem xs i = Inl IndexError"
  by (simp add: getitem_def)

lemma row_values_closed:
  "3 + n + length mc \<le> length row \<Longrightarrow>
   row_values row (enumerate n mc) vals =
     Inr (fold (\<lambda>(k, v). AList.update k v) (zip mc (drop (3 + n) row)) vals)"
proof (induction mc arbitrary: n vals)
  case Nil
  then show ?case by simp
next
  case (Cons m mc)
  have lt: "3 + n < length row" using Cons.prems by simp
  have d: "drop (3 + n) row = row ! (3 + n) # drop (3 + Suc n) row"
    using Cons_nth_drop_Suc [OF lt] by simp
  have "row_values row (enumerate (Suc n) mc) (AList.update m (row ! (3 + n)) vals) =
      Inr (fold (\<lambda>(k, v). AList.update k v) (zip mc (drop (3 + Suc n) row))
        (AList.update m (row ! (3 + n)) vals))"
    using Cons.prems by (intro Cons.IH) simp
  then show ?case using lt by (simp only: enumerate_simps row_values.simps getitem_in ebind_Inr d zip_Cons_Cons fold_Cons comp_apply case_prod_conv)
qed

lemma row_values_short:
  "mc \<noteq> [] \<Longrightarrow> length row < 3 + n + length mc \<Longrightarrow>
   row_values row (enumerate n mc) vals = Inl IndexError"
proof (induction mc arbitrary: n vals)
  case Nil
  then show ?case by simp
next
  case (Cons m mc)
  show ?case
  proof (cases "3 + n < length row")
    case True
    then have "mc \<noteq> []" using Cons.prems by auto
    then show ?thesis using True Cons.prems Cons.IH [of "Suc n"] by simp
  next
    case False
    then show ?thesis by simp
  qed
qed

lemma parse_row_ok:
  "3 \<le> length row \<Longrightarrow> 3 + length mc \<le> length row \<Longrightarrow>
   parse_row mc row = Inr (record_of_row mc row)"
proof -
  assume a: "3 \<le> length row" and b: "3 + length mc \<le> length row"
  have g: "getitem row 0 = Inr (row ! 0)" "getitem row 1 = Inr (row ! 1)"
    "getitem row 2 = Inr (row ! 2)"
    using a by (auto simp: getitem_def)
  show ?thesis
    using row_values_closed [of 0 mc row "[]"] b
    by (simp add: parse_row_def record_of_row_def g)
qed

lemma parse_row_short:
  "length row < 3 \<or> length row < 3 + length mc \<Longrightarrow> parse_row mc row = Inl IndexError"
  using row_values_short [of mc row 0 "[]"]
  by (cases "mc = []") (auto simp: parse_row_def getitem_def)

lemma parse_row_cases:
  "parse_row mc row =
     (if 3 \<le> length row \<and> 3 + length mc \<le> length row then Inr (record_of_row mc row)
      else Inl IndexError)"
  using parse_row_ok [of row mc] parse_row_short [of row mc] by auto

lemma parse_rows_loop_closed:
  "parse_rows_loop mc rows acc =
     (if list_all (\<lambda>row. 3 \<le> length row \<and> 3 + length mc \<le> length row) rows
      then Inr (acc @ map (record_of_row mc) rows) else Inl IndexError)"
  by (induction rows arbitrary: acc) (simp_all add: parse_row_cases)

lemma width_drop3: "3 \<le> length row \<and> 3 + length (drop 3 headers) \<le> length row
    \<longleftrightarrow> 3 \<le> length row \<and> length (headers :: string list) \<le> length row"
  by auto

lemma parse_rows_closed:
  "parse_rows headers raw_rows =
     (if rows_wide headers raw_rows
      then Inr (map (record_of_row (drop 3 headers)) raw_rows, drop 3 headers)
      else Inl IndexError)"
  unfolding parse_rows_def Let_def parse_rows_loop_closed rows_wide_def width_drop3
  by simp

lemma table_ok_wide: "table_ok headers raw_rows \<Longrightarrow> rows_wide headers raw_rows"
  by (auto simp: table_ok_def rows_wide_def list_all_iff)

lemma map_of_fold_update:
  "map_of (fold (\<lambda>(k, v). AList.update k v) kvs al) = map_of (rev kvs @ al)"
  by (induction kvs arbitrary: al) (auto simp: update_conv')

lemma keys_fold_update:
  "fst ` set (fold (\<lambda>(k, v). AList.update k v) kvs al) = fst ` set kvs \<union> fst ` set al"
proof -
  have "dom (map_of (fold (\<lambda>(k, v). AList.update k v) kvs al)) = dom (map_of (rev kvs @ al))"
    by (simp only: map_of_fold_update)
  then show ?thesis by (auto simp: dom_map_of_conv_image_fst)
qed

lemma distinct_fold_update:
  "distinct (map fst al) \<Longrightarrow> distinct (map fst (fold (\<lambda>(k, v). AList.update k v) kvs al))"
  by (induction kvs arbitrary: al) (auto simp: distinct_update)

lemma fold_update_distinct_keys:
  "distinct (map fst kvs) \<Longrightarrow> fst ` set kvs \<inter> fst ` set al = {} \<Longrightarrow>
   fold (\<lambda>(k, v). AList.update k v) kvs al = al @ kvs"
proof (induction kvs arbitrary: al)
  case Nil
  then show ?case by simp
next
  case (Cons kv kvs)
  obtain k v where kv: "kv = (k, v)" by (cases kv)
  have nk: "k \<notin> fst ` set al" using Cons.prems(2) by (auto simp: kv)
  have u: "AList.update k v al = al @ [(k, v)]"
    using nk by (induction al) auto
  have "fold (\<lambda>(k, v). AList.update k v) kvs (al @ [(k, v)]) = (al @ [(k, v)]) @ kvs"
    using Cons.prems by (intro Cons.IH) (auto simp: kv)
  then show ?case by (simp add: kv u)
qed

lemma map_of_rev_zip_last:
  "i < length ks \<Longrightarrow> length ks \<le> length vs \<Longrightarrow>
   (\<forall>i'. i < i' \<and> i' < length ks \<longrightarrow> ks ! i' \<noteq> ks ! i) \<Longrightarrow>
   map_of (rev (zip ks vs)) (ks ! i) = Some (vs ! i)"
proof (induction ks arbitrary: vs i)
  case Nil
  then show ?case by simp
next
  case (Cons k ks)
  obtain v vs' where vs: "vs = v # vs'" using Cons.prems(2) by (cases vs) auto
  show ?case
  proof (cases i)
    case 0
    have "k \<notin> set ks"
    proof
      assume "k \<in> set ks"
      then obtain j where "j < length ks" "ks ! j = k" by (auto simp: in_set_conv_nth)
      then show False using Cons.prems(3) [rule_format, of "Suc j"] 0 by simp
    qed
    then have "map_of (rev (zip ks vs')) k = None"
      by (auto simp: map_of_eq_None_iff dest: set_zip_leftD)
    then show ?thesis by (simp add: vs 0 map_add_def)
  next
    case (Suc i')
    have "map_of (rev (zip ks vs')) (ks ! i') = Some (vs' ! i')"
    proof (rule Cons.IH)
      show "i' < length ks" using Cons.prems(1) Suc by simp
      show "length ks \<le> length vs'" using Cons.prems(2) vs by simp
      show "\<forall>j. i' < j \<and> j < length ks \<longrightarrow> ks ! j \<noteq> ks ! i'"
      proof (intro allI impI)
        fix j assume "i' < j \<and> j < length ks"
        then show "ks ! j \<noteq> ks ! i'"
          using Cons.prems(3) [rule_format, of "Suc j"] Suc by simp
      qed
    qed
    then show ?thesis by (simp add: vs Suc map_add_def)
  qed
qed

lemma record_of_row_lookup:
  "i < length mc \<Longrightarrow> 3 + length mc \<le> length row \<Longrightarrow>
   (\<forall>i'. i < i' \<and> i' < length mc \<longrightarrow> mc ! i' \<noteq> mc ! i) \<Longrightarrow>
   map_of (values (record_of_row mc row)) (mc ! i) = Some (row ! (3 + i))"
  using map_of_rev_zip_last [of i mc "drop 3 row"]
  by (simp add: record_of_row_def map_of_fold_update)

lemma record_of_row_keys:
  "3 + length mc \<le> length row \<Longrightarrow> fst ` set (values (record_of_row mc row)) = set mc"
proof -
  assume a: "3 + length mc \<le> length row"
  have "map fst (zip mc (drop 3 row)) = mc" using a by (simp add: map_fst_zip_take)
  then have "set (map fst (zip mc (drop 3 row))) = set mc" by simp
  then have "fst ` set (zip mc (drop 3 row)) = set mc" by (simp only: set_map)
  then show ?thesis by (simp add: record_of_row_def keys_fold_update)
qed

lemma record_of_row_distinct:
  "distinct mc \<Longrightarrow> 3 + length mc \<le> length row \<Longrightarrow>
   values (record_of_row mc row) = zip mc (drop 3 row)"
proof -
  assume d: "distinct mc" and a: "3 + length mc \<le> length row"
  have "map fst (zip mc (drop 3 row)) = mc" using a by (simp add: map_fst_zip_take)
  then have "distinct (map fst (zip mc (drop 3 row)))" using d by simp
  then show ?thesis
    using fold_update_distinct_keys [of "zip mc (drop 3 row)" "[]"]
    by (simp add: record_of_row_def)
qed

lemma rows_wide_nth:
  "rows_wide headers raw_rows \<Longrightarrow> j < length raw_rows \<Longrightarrow>
   3 \<le> length (raw_rows ! j) \<and> 3 + length (drop 3 headers) \<le> length (raw_rows ! j)"
  by (auto simp: rows_wide_def list_all_length)

text \<open>
  Claim C8. \<^verbatim>\<open>parse_rows\<close> returns whenever every row has its three key cells and one
  cell per header; and whenever it returns, the column list is the header slice from index 3
  on, there is one record per data row in row order, the first three cells of the row are
  the record's \<open>subdataset\<close>, \<open>frequency\<close> and \<open>cutoff\<close>, and the keys of the record's
  \<open>values\<close> are exactly the names of that slice (the canonical model list is not an
  argument at all). Under a name, \<open>values\<close> holds the cell of the column carrying that name
  (the last such column if a name is repeated), unchanged: an absent cell \<open>Null\<close> stays
  \<open>Null\<close> and is not turned into a number. With pairwise different column names,
  \<open>values\<close> is the columns zipped with the row's cells from index 3 on, in header order.
\<close>

theorem parse_rows_records:
  fixes raw_rows :: "cell list list"
  shows
  "(rows_wide headers raw_rows \<longrightarrow>
      (\<exists>records. parse_rows headers raw_rows = Inr (records, drop 3 headers))) \<and>
   (\<forall>records model_cols. parse_rows headers raw_rows = Inr (records, model_cols) \<longrightarrow>
      model_cols = drop 3 headers \<and> length records = length raw_rows \<and>
      (\<forall>j < length raw_rows.
         subdataset (records ! j) = raw_rows ! j ! 0 \<and>
         frequency (records ! j) = raw_rows ! j ! 1 \<and>
         cutoff (records ! j) = raw_rows ! j ! 2 \<and>
         fst ` set (values (records ! j)) = set model_cols \<and>
         (\<forall>i < length model_cols.
            (\<forall>i'. i < i' \<and> i' < length model_cols \<longrightarrow> model_cols ! i' \<noteq> model_cols ! i) \<longrightarrow>
            map_of (values (records ! j)) (model_cols ! i) = Some (raw_rows ! j ! (3 + i)) \<and>
            (raw_rows ! j ! (3 + i) = Null \<longrightarrow>
               map_of (values (records ! j)) (model_cols ! i) = Some Null)) \<and>
         (distinct model_cols \<longrightarrow>
            values (records ! j) = zip model_cols (drop 3 (raw_rows ! j)))))"
proof (intro conjI allI impI)
  assume "rows_wide headers raw_rows"
  then show "\<exists>records. parse_rows headers raw_rows = Inr (records, drop 3 headers)"
    by (simp add: parse_rows_closed)
next
  fix records model_cols
  assume p: "parse_rows headers raw_rows = Inr (records, model_cols)"
  then have w: "rows_wide headers raw_rows"
    and r: "records = map (record_of_row (drop 3 headers)) raw_rows"
    and m: "model_cols = drop 3 headers"
    by (auto simp: parse_rows_closed split: if_splits)
  show "model_cols = drop 3 headers" by (rule m)
  show "length records = length raw_rows" by (simp add: r)
  fix j assume j: "j < length raw_rows"
  have rj: "records ! j = record_of_row model_cols (raw_rows ! j)" using j by (simp add: r m)
  have len: "3 + length model_cols \<le> length (raw_rows ! j)"
    using rows_wide_nth [OF w j] by (simp add: m)
  show "subdataset (records ! j) = raw_rows ! j ! 0" by (simp add: rj record_of_row_def)
  show "frequency (records ! j) = raw_rows ! j ! 1" by (simp add: rj record_of_row_def)
  show "cutoff (records ! j) = raw_rows ! j ! 2" by (simp add: rj record_of_row_def)
  show "fst ` set (values (records ! j)) = set model_cols"
    unfolding rj by (rule record_of_row_keys [OF len])
  {
    assume "distinct model_cols"
    then show "values (records ! j) = zip model_cols (drop 3 (raw_rows ! j))"
      unfolding rj by (rule record_of_row_distinct [OF _ len])
  }
  fix i assume i: "i < length model_cols"
    and l: "\<forall>i'. i < i' \<and> i' < length model_cols \<longrightarrow> model_cols ! i' \<noteq> model_cols ! i"
  show e: "map_of (values (records ! j)) (model_cols ! i) = Some (raw_rows ! j ! (3 + i))"
    unfolding rj by (rule record_of_row_lookup [OF i len l])
  {
    assume "raw_rows ! j ! (3 + i) = Null"
    then show "map_of (values (records ! j)) (model_cols ! i) = Some Null"
      using e by simp
  }
qed

theorem parse_rows_records_witness:
  "rows_wide [''subdataset'', ''frequency'', ''cutoff'', ''A'', ''B'']
     [[Str ''s1'', Str ''H'', Str ''2026-01-01-00'', Num 1, Null]] \<and>
   parse_rows [''subdataset'', ''frequency'', ''cutoff'', ''A'', ''B'']
     [[Str ''s1'', Str ''H'', Str ''2026-01-01-00'', Num 1, Null]] =
   Inr ([\<lparr>subdataset = Str ''s1'', frequency = Str ''H'', cutoff = Str ''2026-01-01-00'',
          values = [(''A'', Num 1), (''B'', Null)]\<rparr>], [''A'', ''B''])"
proof -
  let ?hs = "[''subdataset'', ''frequency'', ''cutoff'', ''A'', ''B'']"
  let ?rows = "[[Str ''s1'', Str ''H'', Str ''2026-01-01-00'', Num 1, Null]]"
  have w: "rows_wide ?hs ?rows" by (simp add: rows_wide_def)
  from parse_rows_records [of ?hs ?rows] w
  obtain records where p: "parse_rows ?hs ?rows = Inr (records, drop 3 ?hs)" by blast
  from parse_rows_records [of ?hs ?rows] p
  have l: "length records = 1"
    and f: "subdataset (records ! 0) = Str ''s1''" "frequency (records ! 0) = Str ''H''"
      "cutoff (records ! 0) = Str ''2026-01-01-00''"
      "values (records ! 0) = [(''A'', Num 1), (''B'', Null)]"
    by simp_all
  from l obtain r where rs: "records = [r]" by (cases records) auto
  have "r = \<lparr>subdataset = Str ''s1'', frequency = Str ''H'', cutoff = Str ''2026-01-01-00'',
          values = [(''A'', Num 1), (''B'', Null)]\<rparr>"
    using f by (simp add: rs)
  then show ?thesis using w p rs by simp
qed

text \<open>
  Claim C9. Under the precondition \<open>table_ok\<close> (at least three headers, no row shorter than
  the header list) \<^verbatim>\<open>parse_rows\<close> returns and every row access it makes, at positions
  0, 1, 2 and \<open>3 + i\<close> for each model column \<open>i\<close>, is in range. The precondition cannot
  be dropped: as soon as one row is shorter than the header list, some access among those
  positions is out of range and \<^verbatim>\<open>parse_rows\<close> ends in \<^verbatim>\<open>IndexError\<close>.
\<close>

theorem parse_rows_total_under_table_ok:
  fixes raw_rows :: "cell list list"
  shows
  "(table_ok headers raw_rows \<longrightarrow>
      (\<exists>records. parse_rows headers raw_rows = Inr (records, drop 3 headers)) \<and>
      (\<forall>row \<in> set raw_rows.
         getitem row 0 = Inr (row ! 0) \<and> getitem row 1 = Inr (row ! 1) \<and>
         getitem row 2 = Inr (row ! 2) \<and>
         (\<forall>i < length (drop 3 headers). getitem row (3 + i) = Inr (row ! (3 + i))))) \<and>
   ((\<exists>row \<in> set raw_rows. length row < length headers) \<longrightarrow>
      parse_rows headers raw_rows = Inl IndexError \<and>
      (\<exists>row \<in> set raw_rows. \<exists>k < max 3 (length headers). getitem row k = Inl IndexError))"
proof (intro conjI impI ballI allI)
  assume t: "table_ok headers raw_rows"
  then show "\<exists>records. parse_rows headers raw_rows = Inr (records, drop 3 headers)"
    by (simp add: parse_rows_closed table_ok_wide)
  fix row assume "row \<in> set raw_rows"
  then have len: "3 \<le> length headers" "length headers \<le> length row"
    using t by (auto simp: table_ok_def list_all_iff)
  show "getitem row 0 = Inr (row ! 0)" "getitem row 1 = Inr (row ! 1)"
    "getitem row 2 = Inr (row ! 2)"
    using len by (auto simp: getitem_def)
  fix i assume "i < length (drop 3 headers)"
  then show "getitem row (3 + i) = Inr (row ! (3 + i))"
    using len by (auto simp: getitem_def)
next
  assume s: "\<exists>row \<in> set raw_rows. length row < length headers"
  then have "\<not> rows_wide headers raw_rows"
    by (fastforce simp: rows_wide_def list_all_iff)
  then show "parse_rows headers raw_rows = Inl IndexError"
    by (simp add: parse_rows_closed)
  from s obtain row where r: "row \<in> set raw_rows" "length row < length headers" by blast
  have "length row < max 3 (length headers)" "getitem row (length row) = Inl IndexError"
    using r by (auto simp: getitem_def)
  then show "\<exists>row \<in> set raw_rows. \<exists>k < max 3 (length headers). getitem row k = Inl IndexError"
    using r(1) by blast
qed

theorem parse_rows_total_under_table_ok_witness:
  "table_ok [''subdataset'', ''frequency'', ''cutoff'', ''A'']
     [[Str ''s1'', Str ''H'', Str ''2026-01-01-00'', Num 2]] \<and>
   (\<exists>records. parse_rows [''subdataset'', ''frequency'', ''cutoff'', ''A'']
      [[Str ''s1'', Str ''H'', Str ''2026-01-01-00'', Num 2]] = Inr (records, [''A''])) \<and>
   length [Str ''s1'', Str ''H'', Str ''2026-01-01-00'']
     < length [''subdataset'', ''frequency'', ''cutoff'', ''A''] \<and>
   \<not> table_ok [''subdataset'', ''frequency'', ''cutoff'', ''A'']
     [[Str ''s1'', Str ''H'', Str ''2026-01-01-00'']] \<and>
   parse_rows [''subdataset'', ''frequency'', ''cutoff'', ''A'']
     [[Str ''s1'', Str ''H'', Str ''2026-01-01-00'']] = Inl IndexError"
proof -
  let ?hs = "[''subdataset'', ''frequency'', ''cutoff'', ''A'']"
  let ?ok = "[[Str ''s1'', Str ''H'', Str ''2026-01-01-00'', Num 2]]"
  let ?short = "[[Str ''s1'', Str ''H'', Str ''2026-01-01-00'']]"
  have t: "table_ok ?hs ?ok" by (simp add: table_ok_def)
  have n: "\<not> table_ok ?hs ?short" by (simp add: table_ok_def)
  have s: "\<exists>row \<in> set ?short. length row < length ?hs" by simp
  from parse_rows_total_under_table_ok [of ?hs ?ok] t
  have a: "\<exists>records. parse_rows ?hs ?ok = Inr (records, [''A''])" by simp
  from parse_rows_total_under_table_ok [of ?hs ?short] s
  have b: "parse_rows ?hs ?short = Inl IndexError" by blast
  show ?thesis using t n a b by simp
qed

subsection \<open>Template renderer\<close>

lemma contains_iff_sublist: "contains old s \<longleftrightarrow> sublist old s"
  by (induction s) (auto simp: sublist_Cons_right)

lemma replace_Nil: "old \<noteq> [] \<Longrightarrow> replace old new [] = []"
  by (subst replace.simps) simp

lemma replace_match:
  "old \<noteq> [] \<Longrightarrow> prefix old s \<Longrightarrow>
   replace old new s = new @ replace old new (drop (length old) s)"
  by (subst replace.simps) auto

lemma replace_skip:
  "old \<noteq> [] \<Longrightarrow> \<not> prefix old (c # cs) \<Longrightarrow>
   replace old new (c # cs) = c # replace old new cs"
  by (subst replace.simps) simp

lemma replace_absent:
  "old \<noteq> [] \<Longrightarrow> \<not> sublist old s \<Longrightarrow> replace old new s = s"
proof (induction s)
  case Nil
  then show ?case by (simp add: replace_Nil)
next
  case (Cons c cs)
  have "\<not> prefix old (c # cs)" using Cons.prems(2) prefix_imp_sublist by blast
  moreover have "\<not> sublist old cs" using Cons.prems(2) by (auto simp: sublist_Cons_right)
  ultimately show ?case using Cons by (simp add: replace_skip)
qed

lemma occurrences_iff:
  "i \<in> set (occurrences old s) \<longleftrightarrow> i \<le> length s \<and> prefix old (drop i s)"
  by (auto simp: occurrences_def simp del: upt_Suc)

lemma occurrence_split:
  "i \<in> set (occurrences old s) \<longleftrightarrow>
   i \<le> length s \<and> (\<exists>post. s = take i s @ old @ post)"
proof
  assume "i \<in> set (occurrences old s)"
  then have l: "i \<le> length s" and "prefix old (drop i s)" by (simp_all add: occurrences_iff)
  then obtain post where "drop i s = old @ post" by (auto simp: prefix_def)
  then have "s = take i s @ old @ post" by (metis append_take_drop_id)
  then show "i \<le> length s \<and> (\<exists>post. s = take i s @ old @ post)" using l by blast
next
  assume a: "i \<le> length s \<and> (\<exists>post. s = take i s @ old @ post)"
  then obtain post where p: "s = take i s @ old @ post" by blast
  have "drop i s = drop i (take i s @ old @ post)" using p by simp
  also have "\<dots> = old @ post" using a by simp
  finally show "i \<in> set (occurrences old s)" using a by (simp add: occurrences_iff)
qed

lemma occurrence_at: "length pre \<in> set (occurrences old (pre @ old @ post))"
  by (simp add: occurrences_iff)

lemma sublist_iff_occurrences: "sublist old s \<longleftrightarrow> occurrences old s \<noteq> []"
proof
  assume "sublist old s"
  then obtain pre post where "s = pre @ old @ post" by (auto simp: sublist_def)
  then have "length pre \<in> set (occurrences old s)" using occurrence_at by simp
  then show "occurrences old s \<noteq> []" by auto
next
  assume "occurrences old s \<noteq> []"
  then obtain i where "i \<in> set (occurrences old s)" by (cases "occurrences old s") auto
  then show "sublist old s" unfolding occurrence_split sublist_def by blast
qed

lemma replace_single:
  "old \<noteq> [] \<Longrightarrow> set (occurrences old (pre @ old @ post)) = {length pre} \<Longrightarrow>
   replace old new (pre @ old @ post) = pre @ new @ post"
proof (induction pre)
  case Nil
  have "\<not> sublist old post"
  proof
    assume "sublist old post"
    then obtain a b where ab: "post = a @ old @ b" by (auto simp: sublist_def)
    have "length (old @ a) \<in> set (occurrences old ((old @ a) @ old @ b))"
      by (rule occurrence_at)
    then have "length old + length a \<in> set (occurrences old ([] @ old @ post))"
      by (simp add: ab)
    then show False using Nil by simp
  qed
  then have "replace old new post = post" using Nil.prems(1) by (rule replace_absent [rotated])
  then show ?case using Nil.prems(1) by (simp add: replace_match)
next
  case (Cons c pre)
  have np: "\<not> prefix old (c # pre @ old @ post)"
  proof
    assume "prefix old (c # pre @ old @ post)"
    then have "0 \<in> set (occurrences old ((c # pre) @ old @ post))"
      by (simp add: occurrences_iff)
    then show False using Cons.prems(2) by simp
  qed
  have "set (occurrences old (pre @ old @ post)) = {length pre}"
  proof (intro equalityI subsetI)
    fix i assume "i \<in> set (occurrences old (pre @ old @ post))"
    then have "Suc i \<in> set (occurrences old ((c # pre) @ old @ post))"
      by (simp add: occurrences_iff)
    then show "i \<in> {length pre}" using Cons.prems(2) by simp
  next
    fix i assume "i \<in> {length pre}"
    then show "i \<in> set (occurrences old (pre @ old @ post))" using occurrence_at by simp
  qed
  then have "replace old new (pre @ old @ post) = pre @ new @ post"
    using Cons.prems(1) by (intro Cons.IH)
  then show ?case using np Cons.prems(1) by (simp add: replace_skip)
qed

lemma PLACEHOLDER_nonempty: "PLACEHOLDER \<noteq> []"
  by (simp add: PLACEHOLDER_def)

text \<open>
  Claim C7. The renderer fails, and then with \<open>PlaceholderMissing\<close> and no other error,
  exactly when the placeholder token does not occur in the template. When the token occurs at
  exactly one position \<open>i\<close>, the output is the template text before \<open>i\<close>, then the
  statement \<^verbatim>\<open>const DATA = <data_json>;\<close>, then the template text after the token: nothing
  else of the template is changed.
\<close>

theorem render_placeholder:
  "(render data_json template = Inl PlaceholderMissing \<longleftrightarrow> \<not> sublist PLACEHOLDER template) \<and>
   (\<forall>e. render data_json template = Inl e \<longrightarrow> e = PlaceholderMissing) \<and>
   (\<forall>i. occurrences PLACEHOLDER template = [i] \<longrightarrow>
      render data_json template =
        Inr (take i template @ (''const DATA = '' @ data_json @ '';'')
             @ drop (i + length PLACEHOLDER) template))"
proof (intro conjI allI impI)
  show "render data_json template = Inl PlaceholderMissing \<longleftrightarrow> \<not> sublist PLACEHOLDER template"
    by (simp add: render_def contains_iff_sublist)
next
  fix e assume "render data_json template = Inl e"
  then show "e = PlaceholderMissing" by (auto simp: render_def split: if_splits)
next
  fix i assume o: "occurrences PLACEHOLDER template = [i]"
  then have "i \<in> set (occurrences PLACEHOLDER template)" by simp
  then obtain post where i: "i \<le> length template"
    and t: "template = take i template @ PLACEHOLDER @ post"
    unfolding occurrence_split by blast
  let ?pre = "take i template"
  have lp: "length ?pre = i" using i by simp
  have d: "drop (i + length PLACEHOLDER) template = post"
  proof -
    have "drop (i + length PLACEHOLDER) template
        = drop (i + length PLACEHOLDER) (?pre @ PLACEHOLDER @ post)" using t by simp
    also have "\<dots> = post" using lp by simp
    finally show ?thesis .
  qed
  have s: "set (occurrences PLACEHOLDER (?pre @ PLACEHOLDER @ post)) = {length ?pre}"
    using o t lp by simp
  have c: "contains PLACEHOLDER template"
    using o by (simp add: contains_iff_sublist sublist_iff_occurrences)
  have "replace PLACEHOLDER (''const DATA = '' @ data_json @ '';'') template
      = replace PLACEHOLDER (''const DATA = '' @ data_json @ '';'') (?pre @ PLACEHOLDER @ post)"
    using t by simp
  also have "\<dots> = ?pre @ (''const DATA = '' @ data_json @ '';'') @ post"
    by (rule replace_single [OF PLACEHOLDER_nonempty s])
  finally show "render data_json template =
        Inr (take i template @ (''const DATA = '' @ data_json @ '';'')
             @ drop (i + length PLACEHOLDER) template)"
    using c by (simp add: render_def d)
qed

theorem render_placeholder_witness:
  "occurrences PLACEHOLDER ''<b>/* __DATA_PLACEHOLDER__ */</b>'' = [3] \<and>
   render ''{\"models\":[]}'' ''<b>/* __DATA_PLACEHOLDER__ */</b>''
     = Inr ''<b>const DATA = {\"models\":[]};</b>'' \<and>
   \<not> sublist PLACEHOLDER ''<b>/* __DATA__ */</b>'' \<and>
   render ''{\"models\":[]}'' ''<b>/* __DATA__ */</b>'' = Inl PlaceholderMissing"
proof -
  have a: "occurrences PLACEHOLDER ''<b>/* __DATA_PLACEHOLDER__ */</b>'' = [3]"
    by code_simp
  have b: "\<not> sublist PLACEHOLDER ''<b>/* __DATA__ */</b>''"
    unfolding contains_iff_sublist [symmetric] by code_simp
  have l: "length PLACEHOLDER = 26" by (simp add: PLACEHOLDER_def)
  from render_placeholder [of "''{\"models\":[]}''" "''<b>/* __DATA_PLACEHOLDER__ */</b>''"] a
  have c: "render ''{\"models\":[]}'' ''<b>/* __DATA_PLACEHOLDER__ */</b>''
     = Inr ''<b>const DATA = {\"models\":[]};</b>''"
    by (simp add: l)
  from render_placeholder [of "''{\"models\":[]}''" "''<b>/* __DATA__ */</b>''"] b
  have d: "render ''{\"models\":[]}'' ''<b>/* __DATA__ */</b>'' = Inl PlaceholderMissing"
    by blast
  show ?thesis using a b c d by blast
qed

subsection \<open>Summary aggregator: the two loops of \<^verbatim>\<open>avg_metric_and_rank\<close>\<close>

lemma lookup_Some [simp]: "d k = Some v \<Longrightarrow> lookup d k = Inr v"
  by (simp add: lookup_def)

lemma lookup_None [simp]: "d k = None \<Longrightarrow> lookup d k = Inl KeyError"
  by (simp add: lookup_def)

lemma dict_init_fold:
  "fold (\<lambda>m d. d(m \<mapsto> x)) ms d0 = (\<lambda>k. if k \<in> set ms then Some x else d0 k)"
  by (induction ms arbitrary: d0) (auto simp: fun_eq_iff)

lemma dict_init_apply: "dict_init models x = (\<lambda>k. if k \<in> set models then Some x else None)"
  by (simp add: dict_init_def dict_init_fold)

lemma dom_dict_init [simp]: "dom (dict_init models x) = set models"
  by (auto simp: dict_init_apply split: if_splits)

lemma collect_inner:
  "set ms \<subseteq> dom d \<Longrightarrow>
   efold (collect_step r) ms d = Inr (\<lambda>k. map_option (\<lambda>vs. vs @ model_hits r ms k) (d k))"
proof (induction ms arbitrary: d)
  case Nil
  have "(\<lambda>k. map_option (\<lambda>vs. vs @ model_hits r [] k) (d k)) = d"
    by (auto simp: fun_eq_iff model_hits_def option.map_ident split: option.splits)
  then show ?case by simp
next
  case (Cons m ms)
  from Cons.prems obtain vs0 where vs0: "d m = Some vs0" by auto
  show ?case
  proof (cases "dict_get (values r) m")
    case None
    have "efold (collect_step r) ms d =
        Inr (\<lambda>k. map_option (\<lambda>vs. vs @ model_hits r ms k) (d k))"
      using Cons.prems by (intro Cons.IH) simp
    moreover have "model_hits r (m # ms) = model_hits r ms"
      using None by (auto simp: fun_eq_iff model_hits_def split: option.splits)
    moreover have "collect_step r m d = Inr d" using None by (simp add: collect_step_def)
    ultimately show ?thesis by (simp only: efold.simps ebind_Inr)
  next
    case (Some v)
    let ?d = "d(m \<mapsto> vs0 @ [v])"
    have "efold (collect_step r) ms ?d =
        Inr (\<lambda>k. map_option (\<lambda>vs. vs @ model_hits r ms k) (?d k))"
      using Cons.prems by (intro Cons.IH) auto
    moreover have "(\<lambda>k. map_option (\<lambda>vs. vs @ model_hits r ms k) (?d k))
        = (\<lambda>k. map_option (\<lambda>vs. vs @ model_hits r (m # ms) k) (d k))"
      using Some vs0 by (auto simp: fun_eq_iff model_hits_def split: option.splits)
    moreover have "collect_step r m d = Inr ?d" using Some vs0 by (simp add: collect_step_def)
    ultimately show ?thesis by (simp only: efold.simps ebind_Inr)
  qed
qed

lemma collect_outer:
  "set models \<subseteq> dom d \<Longrightarrow>
   efold (\<lambda>r. efold (collect_step r) models) records d =
     Inr (\<lambda>k. map_option (\<lambda>vs. vs @ concat (map (\<lambda>r. model_hits r models k) records)) (d k))"
proof (induction records arbitrary: d)
  case Nil
  have "(\<lambda>k. map_option (\<lambda>vs. vs @ []) (d k)) = d"
    by (auto simp: fun_eq_iff option.map_ident)
  then show ?case by simp
next
  case (Cons r records)
  let ?d = "\<lambda>k. map_option (\<lambda>vs. vs @ model_hits r models k) (d k)"
  have s: "efold (collect_step r) models d = Inr ?d"
    using Cons.prems by (rule collect_inner)
  have "set models \<subseteq> dom ?d" using Cons.prems by (auto simp: dom_def)
  then have "efold (\<lambda>r. efold (collect_step r) models) records ?d =
     Inr (\<lambda>k. map_option (\<lambda>vs. vs @ concat (map (\<lambda>r. model_hits r models k) records)) (?d k))"
    by (rule Cons.IH)
  moreover have "(\<lambda>k. map_option (\<lambda>vs. vs @ concat (map (\<lambda>r. model_hits r models k) records)) (?d k))
      = (\<lambda>k. map_option (\<lambda>vs. vs @ concat (map (\<lambda>r. model_hits r models k) (r # records))) (d k))"
    by (auto simp: fun_eq_iff option.map_comp comp_def)
  ultimately show ?case using s by (simp only: efold.simps ebind_Inr)
qed

lemma avg_metric_loop:
  "set ms \<subseteq> dom mv \<Longrightarrow>
   efold (\<lambda>m avg. ebind (lookup mv m) (\<lambda>vals. Inr (avg(m \<mapsto> g vals)))) ms a0 =
     Inr (\<lambda>k. if k \<in> set ms then Some (g (the (mv k))) else a0 k)"
proof (induction ms arbitrary: a0)
  case Nil
  then show ?case by simp
next
  case (Cons m ms)
  from Cons.prems obtain v where v: "mv m = Some v" by auto
  have "efold (\<lambda>m avg. ebind (lookup mv m) (\<lambda>vals. Inr (avg(m \<mapsto> g vals)))) ms (a0(m \<mapsto> g v)) =
     Inr (\<lambda>k. if k \<in> set ms then Some (g (the (mv k))) else (a0(m \<mapsto> g v)) k)"
    using Cons.prems by (intro Cons.IH) simp
  moreover have "(\<lambda>k. if k \<in> set ms then Some (g (the (mv k))) else (a0(m \<mapsto> g v)) k)
      = (\<lambda>k. if k \<in> set (m # ms) then Some (g (the (mv k))) else a0 k)"
    using v by (auto simp: fun_eq_iff)
  moreover have "ebind (lookup mv m) (\<lambda>vals. Inr (a0(m \<mapsto> g vals))) = Inr (a0(m \<mapsto> g v))"
    using v by simp
  ultimately show ?case by (simp only: efold.simps ebind_Inr)
qed

lemma rank_step_loop:
  "fst ` set xs \<subseteq> dom A \<Longrightarrow> fst ` set xs \<subseteq> dom C \<Longrightarrow>
   efold rank_step (enumerate n xs) (A, C) =
     Inr (\<lambda>k. map_option (\<lambda>a. a + rank_sum n xs k) (A k),
          \<lambda>k. map_option (\<lambda>c. c + rank_hits xs k) (C k))"
proof (induction xs arbitrary: n A C)
  case Nil
  have "(\<lambda>k. map_option (\<lambda>a. a + 0) (A k)) = A" "(\<lambda>k. map_option (\<lambda>a. a + 0) (C k)) = C"
    by (auto simp: fun_eq_iff option.map_ident)
  then show ?case by (simp add: rank_hits_def)
next
  case (Cons x xs)
  obtain m v where x: "x = (m, v)" by (cases x)
  from Cons.prems obtain a c where a: "A m = Some a" and c: "C m = Some c"
    by (auto simp: x)
  let ?A = "A(m \<mapsto> a + (int n + 1))" and ?C = "C(m \<mapsto> c + 1)"
  have s: "rank_step (n, x) (A, C) = Inr (?A, ?C)"
    using a c by (simp add: rank_step_def x)
  have "efold rank_step (enumerate (Suc n) xs) (?A, ?C) =
     Inr (\<lambda>k. map_option (\<lambda>a. a + rank_sum (Suc n) xs k) (?A k),
          \<lambda>k. map_option (\<lambda>c. c + rank_hits xs k) (?C k))"
    using Cons.prems by (intro Cons.IH) auto
  moreover have "(\<lambda>k. map_option (\<lambda>a. a + rank_sum (Suc n) xs k) (?A k))
      = (\<lambda>k. map_option (\<lambda>a. a + rank_sum n (x # xs) k) (A k))"
    using a by (auto simp: fun_eq_iff x)
  moreover have "(\<lambda>k. map_option (\<lambda>c. c + rank_hits xs k) (?C k))
      = (\<lambda>k. map_option (\<lambda>c. c + rank_hits (x # xs) k) (C k))"
    using c by (auto simp: fun_eq_iff x rank_hits_def)
  ultimately show ?case using s by (simp only: enumerate_simps efold.simps ebind_Inr)
qed

lemma present_vals_eq:
  "present_vals models r =
     List.map_filter (\<lambda>m. map_option (Pair m) (dict_get (values r) m)) models"
  by (induction models) (simp_all add: present_vals_def split: option.splits)

lemma present_vals_Nil [simp]: "present_vals [] r = []"
  by (simp add: present_vals_eq)

lemma present_vals_Cons:
  "present_vals (m # ms) r =
     (case dict_get (values r) m of None \<Rightarrow> [] | Some v \<Rightarrow> [(m, v)]) @ present_vals ms r"
  by (simp add: present_vals_eq split: option.splits)

lemma present_vals_append:
  "present_vals (ms @ ms') r = present_vals ms r @ present_vals ms' r"
  by (induction ms) (simp_all add: present_vals_Cons)

lemma set_present_vals:
  "set (present_vals models r) = {(m, v). m \<in> set models \<and> dict_get (values r) m = Some v}"
  by (induction models) (auto simp: present_vals_Cons split: option.splits)

lemma map_fst_present_vals:
  "map fst (present_vals models r) = filter (\<lambda>m. dict_get (values r) m \<noteq> None) models"
  by (induction models) (auto simp: present_vals_Cons split: option.splits)

lemma set_ranked_vals [simp]: "set (ranked_vals models r) = set (present_vals models r)"
  by (simp add: ranked_vals_def)

lemma ranked_keys: "fst ` set (ranked_vals models r) \<subseteq> set models"
  by (auto simp: set_present_vals)

lemma rank_record_closed:
  "set models \<subseteq> dom A \<Longrightarrow> set models \<subseteq> dom C \<Longrightarrow>
   rank_record models r (A, C) =
     Inr (\<lambda>k. map_option (\<lambda>a. a + rank_sum 0 (ranked_vals models r) k) (A k),
          \<lambda>k. map_option (\<lambda>c. c + rank_hits (ranked_vals models r) k) (C k))"
  unfolding rank_record_def using ranked_keys [of models r]
  by (intro rank_step_loop) auto

lemma rank_loop:
  "set models \<subseteq> dom A \<Longrightarrow> set models \<subseteq> dom C \<Longrightarrow>
   efold (rank_record models) records (A, C) =
     Inr (\<lambda>k. map_option (\<lambda>a. a + rank_total records models k) (A k),
          \<lambda>k. map_option (\<lambda>c. c + rank_times records models k) (C k))"
proof (induction records arbitrary: A C)
  case Nil
  have "(\<lambda>k. map_option (\<lambda>a. a + 0) (A k)) = A" "(\<lambda>k. map_option (\<lambda>a. a + 0) (C k)) = C"
    by (auto simp: fun_eq_iff option.map_ident)
  then show ?case by (simp add: rank_total_def rank_times_def)
next
  case (Cons r records)
  let ?A = "\<lambda>k. map_option (\<lambda>a. a + rank_sum 0 (ranked_vals models r) k) (A k)"
  let ?C = "\<lambda>k. map_option (\<lambda>c. c + rank_hits (ranked_vals models r) k) (C k)"
  have s: "rank_record models r (A, C) = Inr (?A, ?C)"
    using Cons.prems by (rule rank_record_closed)
  have "set models \<subseteq> dom ?A" "set models \<subseteq> dom ?C" using Cons.prems by (auto simp: dom_def)
  then have "efold (rank_record models) records (?A, ?C) =
     Inr (\<lambda>k. map_option (\<lambda>a. a + rank_total records models k) (?A k),
          \<lambda>k. map_option (\<lambda>c. c + rank_times records models k) (?C k))"
    by (rule Cons.IH)
  moreover have "(\<lambda>k. map_option (\<lambda>a. a + rank_total records models k) (?A k))
      = (\<lambda>k. map_option (\<lambda>a. a + rank_total (r # records) models k) (A k))"
    by (auto simp: fun_eq_iff option.map_comp comp_def rank_total_def add.assoc)
  moreover have "(\<lambda>k. map_option (\<lambda>c. c + rank_times records models k) (?C k))
      = (\<lambda>k. map_option (\<lambda>c. c + rank_times (r # records) models k) (C k))"
    by (auto simp: fun_eq_iff option.map_comp comp_def rank_times_def add.assoc)
  ultimately show ?case using s by (simp only: efold.simps ebind_Inr)
qed

lemma avg_rank_loop:
  "set ms \<subseteq> dom A \<Longrightarrow> set ms \<subseteq> dom C \<Longrightarrow>
   efold (avg_rank_step A C) ms a0 =
     Inr (\<lambda>k. if k \<in> set ms
              then Some (if the (C k) > 0 then Some (of_int (the (A k)) / of_int (the (C k)))
                         else None)
              else a0 k)"
proof (induction ms arbitrary: a0)
  case Nil
  then show ?case by simp
next
  case (Cons m ms)
  from Cons.prems obtain a c where a: "A m = Some a" and c: "C m = Some c" by auto
  let ?v = "if c > 0 then Some (of_int a / of_int c) else (None :: rat option)"
  have s: "avg_rank_step A C m a0 = Inr (a0(m \<mapsto> ?v))"
    using a c by (simp add: avg_rank_step_def)
  have "efold (avg_rank_step A C) ms (a0(m \<mapsto> ?v)) =
     Inr (\<lambda>k. if k \<in> set ms
              then Some (if the (C k) > 0 then Some (of_int (the (A k)) / of_int (the (C k)))
                         else None)
              else (a0(m \<mapsto> ?v)) k)"
    using Cons.prems by (intro Cons.IH) auto
  moreover have "(\<lambda>k. if k \<in> set ms
              then Some (if the (C k) > 0 then Some (of_int (the (A k)) / of_int (the (C k)))
                         else None)
              else (a0(m \<mapsto> ?v)) k)
     = (\<lambda>k. if k \<in> set (m # ms)
              then Some (if the (C k) > 0 then Some (of_int (the (A k)) / of_int (the (C k)))
                         else None)
              else a0 k)"
    using a c by (auto simp: fun_eq_iff)
  ultimately show ?case using s by (simp only: efold.simps ebind_Inr)
qed

lemma avg_metric_and_rank_closed:
  "avg_metric_and_rank records models =
     Inr (avg_metric_of records models, avg_rank_of records models)"
proof -
  let ?mv = "\<lambda>k. map_option (\<lambda>vs. vs @ concat (map (\<lambda>r. model_hits r models k) records))
               (dict_init models [] k)"
  let ?A = "\<lambda>k. map_option (\<lambda>a. a + rank_total records models k) (dict_init models 0 k)"
  let ?C = "\<lambda>k. map_option (\<lambda>c. c + rank_times records models k) (dict_init models 0 k)"
  have 1: "efold (\<lambda>r. efold (collect_step r) models) records (dict_init models []) = Inr ?mv"
    by (rule collect_outer) simp
  have dmv: "set models \<subseteq> dom ?mv" by (auto simp: dict_init_apply)
  have 2: "efold (\<lambda>m avg_metric.
              ebind (lookup ?mv m) (\<lambda>vals. Inr (avg_metric(m \<mapsto> avg_of vals))))
            models Map.empty = Inr (avg_metric_of records models)"
    unfolding avg_metric_loop [OF dmv]
    by (auto simp: avg_metric_of_def fun_eq_iff dict_init_apply)
  have 3: "efold (rank_record models) records (dict_init models 0, dict_init models 0)
      = Inr (?A, ?C)"
    by (rule rank_loop) simp_all
  have dA: "set models \<subseteq> dom ?A" and dC: "set models \<subseteq> dom ?C"
    by (auto simp: dict_init_apply)
  have 4: "efold (avg_rank_step ?A ?C) models Map.empty = Inr (avg_rank_of records models)"
    unfolding avg_rank_loop [OF dA dC]
    by (auto simp: avg_rank_of_def fun_eq_iff dict_init_apply)
  show ?thesis
    unfolding avg_metric_and_rank_def 1 ebind_Inr 2 3 case_prod_conv 4 ..
qed

lemma before_nth:
  assumes "i < j" "j < length xs"
  shows "before xs (xs ! i) (xs ! j)"
proof -
  let ?t = "drop (Suc i) xs"
  have i: "i < length xs" using assms by simp
  have 1: "xs = take i xs @ xs ! i # ?t" using i by (rule id_take_nth_drop)
  have jt: "j - Suc i < length ?t" using assms by simp
  have 2: "?t = take (j - Suc i) ?t @ ?t ! (j - Suc i) # drop (Suc (j - Suc i)) ?t"
    using jt by (rule id_take_nth_drop)
  have 3: "?t ! (j - Suc i) = xs ! j" using assms by simp
  have "xs = take i xs @ xs ! i # take (j - Suc i) ?t @ xs ! j # drop (Suc (j - Suc i)) ?t"
    using 1 2 3 by metis
  then show ?thesis unfolding before_def by blast
qed

lemma before_filter: "before xs a b \<Longrightarrow> P a \<Longrightarrow> P b \<Longrightarrow> before (filter P xs) a b"
  unfolding before_def by force

lemma before_ConsI: "before xs a b \<Longrightarrow> before (x # xs) a b"
proof -
  assume "before xs a b"
  then obtain p q w where "xs = p @ a # q @ b # w" unfolding before_def by blast
  then have "x # xs = (x # p) @ a # q @ b # w" by simp
  then show ?thesis unfolding before_def by blast
qed

lemma before_headI: "b \<in> set xs \<Longrightarrow> before (a # xs) a b"
proof -
  assume "b \<in> set xs"
  then obtain q w where "xs = q @ b # w" by (auto simp: in_set_conv_decomp)
  then have "a # xs = [] @ a # q @ b # w" by simp
  then show ?thesis unfolding before_def by blast
qed

lemma before_ConsD: "before (x # xs) a b \<Longrightarrow> (x = a \<and> b \<in> set xs) \<or> before xs a b"
proof -
  assume "before (x # xs) a b"
  then obtain p q w where e: "x # xs = p @ a # q @ b # w" unfolding before_def by blast
  show ?thesis
  proof (cases p)
    case Nil
    then show ?thesis using e by auto
  next
    case (Cons y p')
    then have "xs = p' @ a # q @ b # w" using e by simp
    then show ?thesis unfolding before_def by blast
  qed
qed

lemma before_filterD: "before (filter P xs) a b \<Longrightarrow> before xs a b"
proof (induction xs)
  case Nil
  then show ?case by (simp add: before_def)
next
  case (Cons x xs)
  show ?case
  proof (cases "P x")
    case False
    then show ?thesis using Cons by (simp add: before_ConsI)
  next
    case True
    then have "before (x # filter P xs) a b" using Cons.prems by simp
    then consider "x = a" "b \<in> set (filter P xs)" | "before (filter P xs) a b"
      using before_ConsD by fastforce
    then show ?thesis
    proof cases
      case 1
      then show ?thesis using before_headI [of b xs a] by simp
    next
      case 2
      then show ?thesis using Cons.IH by (simp add: before_ConsI)
    qed
  qed
qed

lemma before_set: "before xs a b \<Longrightarrow> a \<in> set xs \<and> b \<in> set xs"
  unfolding before_def by auto

lemma before_distinct_neq: "distinct xs \<Longrightarrow> before xs a b \<Longrightarrow> a \<noteq> b"
  unfolding before_def by auto

lemma takeWhile_upto: "a \<notin> set p \<Longrightarrow> takeWhile (\<lambda>y. y \<noteq> a) (p @ a # r) = p"
  by (induction p) auto

lemma before_asym: "distinct xs \<Longrightarrow> before xs a b \<Longrightarrow> \<not> before xs b a"
proof
  assume d: "distinct xs" and 1: "before xs a b" and 2: "before xs b a"
  from 1 obtain p q w where e1: "xs = p @ a # q @ b # w" unfolding before_def by blast
  from 2 obtain p' q' w' where e2: "xs = p' @ b # q' @ a # w'" unfolding before_def by blast
  have na: "a \<notin> set p" "a \<notin> set q" "a \<notin> set w" "a \<noteq> b" "b \<notin> set p"
    using d e1 by auto
  have na': "a \<notin> set (p' @ b # q')" using d e2 by auto
  have "takeWhile (\<lambda>y. y \<noteq> a) (p @ a # q @ b # w) = p"
    using na(1) by (rule takeWhile_upto)
  moreover have "takeWhile (\<lambda>y. y \<noteq> a) ((p' @ b # q') @ a # w') = p' @ b # q'"
    using na' by (rule takeWhile_upto)
  ultimately have "p = p' @ b # q'" using e1 e2 by simp
  then show False using na by auto
qed

lemma before_total:
  assumes "distinct xs" "a \<in> set xs" "b \<in> set xs" "a \<noteq> b"
  shows "before xs a b \<or> before xs b a"
proof -
  from assms obtain i j where ij: "i < length xs" "xs ! i = a" "j < length xs" "xs ! j = b"
    by (auto simp: in_set_conv_nth)
  then have "i \<noteq> j" using assms(4) by auto
  then consider "i < j" | "j < i" by linarith
  then show ?thesis
  proof cases
    case 1
    then show ?thesis using before_nth [of i j xs] ij by auto
  next
    case 2
    then show ?thesis using before_nth [of j i xs] ij by auto
  qed
qed

lemma before_sorted: "sorted (map f xs) \<Longrightarrow> before xs a b \<Longrightarrow> f a \<le> f b"
proof -
  assume s: "sorted (map f xs)" and "before xs a b"
  then obtain p q w where "xs = p @ a # q @ b # w" unfolding before_def by blast
  then have "sorted (map f p @ f a # map f q @ f b # map f w)" using s by simp
  then show ?thesis by (simp add: sorted_append)
qed

lemma sort_key_before:
  assumes "distinct xs" "before xs a b" "f a \<le> f b"
  shows "before (sort_key f xs) a b"
proof (rule ccontr)
  let ?ys = "sort_key f xs"
  let ?P = "\<lambda>y. f y = f a"
  assume n: "\<not> before ?ys a b"
  have a: "a \<in> set ?ys" and b: "b \<in> set ?ys"
    using before_set [OF assms(2)] by simp_all
  have ne: "b \<noteq> a" using before_distinct_neq [OF assms(1,2)] by simp
  have d: "distinct ?ys" using assms(1) by simp
  have "before ?ys b a \<or> before ?ys a b" using d b a ne by (rule before_total)
  then have ba: "before ?ys b a" using n by simp
  have s: "sorted (map f ?ys)" by (rule sorted_sort_key)
  have "f b \<le> f a" using s ba by (rule before_sorted)
  then have e: "f b = f a" using assms(3) by simp
  have Pa: "?P a" by simp
  have Pb: "?P b" using e by simp
  have "before (filter ?P ?ys) b a" using ba Pb Pa by (rule before_filter)
  then have 1: "before (filter ?P xs) b a" by (simp only: sort_key_stable)
  have 2: "before (filter ?P xs) a b" using assms(2) Pa Pb by (rule before_filter)
  have "distinct (filter ?P xs)" using assms(1) by simp
  then have "\<not> before (filter ?P xs) b a" using 2 by (rule before_asym)
  then show False using 1 by simp
qed

lemma sort_key_before_less:
  assumes "distinct xs" "a \<in> set xs" "b \<in> set xs" "f a < f b"
  shows "before (sort_key f xs) a b"
proof (rule ccontr)
  let ?ys = "sort_key f xs"
  assume n: "\<not> before ?ys a b"
  have ne: "a \<noteq> b" using assms(4) by auto
  have d: "distinct ?ys" and a: "a \<in> set ?ys" and b: "b \<in> set ?ys" using assms by simp_all
  have "before ?ys a b \<or> before ?ys b a" using d a b ne by (rule before_total)
  then have ba: "before ?ys b a" using n by simp
  have s: "sorted (map f ?ys)" by (rule sorted_sort_key)
  have "f b \<le> f a" using s ba by (rule before_sorted)
  then show False using assms(4) by simp
qed

lemma before_present:
  assumes "i < j" "j < length models"
    and "dict_get (values r) (models ! i) = Some vi"
    and "dict_get (values r) (models ! j) = Some vj"
  shows "before (present_vals models r) (models ! i, vi) (models ! j, vj)"
proof -
  from before_nth [OF assms(1,2)] obtain p q w
    where e: "models = p @ models ! i # q @ models ! j # w"
    unfolding before_def by blast
  have "present_vals (p @ models ! i # q @ models ! j # w) r =
      present_vals p r @ (models ! i, vi) # present_vals q r @ (models ! j, vj)
        # present_vals w r"
    using assms(3,4) by (simp add: present_vals_append present_vals_Cons)
  then show ?thesis unfolding before_def using e by metis
qed

lemma rank_sum_absent: "k \<notin> fst ` set ys \<Longrightarrow> rank_sum n ys k = 0"
  by (induction ys arbitrary: n) auto

lemma rank_sum_decomp:
  "distinct (map fst ys) \<Longrightarrow> ys = p @ x # w \<Longrightarrow>
   rank_sum n ys (fst x) = int n + int (length p) + 1"
proof (induction p arbitrary: n ys)
  case Nil
  then have "fst x \<notin> fst ` set w" by auto
  then show ?case using Nil by (simp add: rank_sum_absent)
next
  case (Cons y p)
  have ne: "fst y \<noteq> fst x" using Cons.prems by auto
  have "rank_sum (Suc n) (p @ x # w) (fst x) = int (Suc n) + int (length p) + 1"
    using Cons.prems by (intro Cons.IH) auto
  then show ?case using ne Cons.prems by simp
qed

lemma rank_sum_nth:
  "distinct (map fst ys) \<Longrightarrow> p < length ys \<Longrightarrow>
   rank_sum n ys (fst (ys ! p)) = int n + int p + 1"
  using rank_sum_decomp [of ys "take p ys" "ys ! p" "drop (Suc p) ys" n]
  by (simp add: id_take_nth_drop [symmetric])

lemma rank_sum_before:
  assumes "distinct (map fst ys)" "before ys a b"
  shows "rank_sum n ys (fst a) < rank_sum n ys (fst b)"
proof -
  from assms(2) obtain p q w where e: "ys = p @ a # q @ b # w" unfolding before_def by blast
  have 1: "rank_sum n ys (fst a) = int n + int (length p) + 1"
    using assms(1) e by (rule rank_sum_decomp)
  have "ys = (p @ a # q) @ b # w" using e by simp
  then have "rank_sum n ys (fst b) = int n + int (length (p @ a # q)) + 1"
    using assms(1) by (rule rank_sum_decomp [rotated])
  then show ?thesis using 1 by simp
qed

lemma rank_hits_absent: "k \<notin> fst ` set ys \<Longrightarrow> rank_hits ys k = 0"
  by (induction ys) (auto simp: rank_hits_def)

lemma rank_hits_distinct:
  "distinct (map fst ys) \<Longrightarrow> k \<in> fst ` set ys \<Longrightarrow> rank_hits ys k = 1"
  by (induction ys) (auto simp: rank_hits_def rank_hits_absent [unfolded rank_hits_def, simplified])

lemma distinct_present_keys:
  "distinct models \<Longrightarrow> distinct (map fst (present_vals models r))"
  by (simp add: map_fst_present_vals)

lemma distinct_present: "distinct models \<Longrightarrow> distinct (present_vals models r)"
  using distinct_present_keys distinct_map by blast

lemma distinct_ranked_keys:
  "distinct models \<Longrightarrow> distinct (map fst (ranked_vals models r))"
proof -
  assume d: "distinct models"
  have "mset (map fst (ranked_vals models r)) = mset (map fst (present_vals models r))"
    by (simp add: ranked_vals_def)
  then show ?thesis using distinct_present_keys [OF d] mset_eq_imp_distinct_iff by blast
qed

lemma ranked_key_set:
  "fst ` set (ranked_vals models r) = {m \<in> set models. dict_get (values r) m \<noteq> None}"
  by (auto simp: set_present_vals image_iff)

lemma length_ranked:
  "distinct models \<Longrightarrow>
   length (ranked_vals models r) = card {m \<in> set models. dict_get (values r) m \<noteq> None}"
proof -
  assume d: "distinct models"
  have "length (ranked_vals models r) = length (map fst (ranked_vals models r))" by simp
  also have "\<dots> = card (set (map fst (ranked_vals models r)))"
    using distinct_ranked_keys [OF d] by (simp only: distinct_card)
  also have "\<dots> = card {m \<in> set models. dict_get (values r) m \<noteq> None}"
    using ranked_key_set [of models r] by simp
  finally show ?thesis .
qed

lemma model_hits_sum:
  "sum_list (concat (map (\<lambda>r. model_hits r models k) records))
     = of_nat (count_list models k) * sum_list (values_of records k)"
  by (induction records)
    (auto simp: values_of_def model_hits_def sum_list_replicate algebra_simps
      split: option.splits)

lemma model_hits_length:
  "length (concat (map (\<lambda>r. model_hits r models k) records))
     = count_list models k * length (values_of records k)"
  by (induction records)
    (auto simp: values_of_def model_hits_def split: option.splits)

lemma avg_of_hits:
  assumes "k \<in> set models"
  shows "avg_of (concat (map (\<lambda>r. model_hits r models k) records)) = avg_of (values_of records k)"
proof -
  let ?c = "count_list models k" and ?vs = "values_of records k"
  let ?hs = "concat (map (\<lambda>r. model_hits r models k) records)"
  have c: "?c > 0" using assms count_list_0_iff [of models k] by auto
  have l: "length ?hs = ?c * length ?vs" by (rule model_hits_length)
  have s: "sum_list ?hs = of_nat ?c * sum_list ?vs" by (rule model_hits_sum)
  have e: "?hs = [] \<longleftrightarrow> ?vs = []" using l c by (metis length_0_conv mult_is_0 less_numeral_extra(3))
  have "sum_list ?hs / of_nat (length ?hs) = sum_list ?vs / of_nat (length ?vs)"
    using c by (simp add: l s)
  then show ?thesis using e by (simp add: avg_of_def)
qed




lemma rank_record_dom:
  assumes "rank_record models r (A, C) = Inr (A', C')" "set models \<subseteq> dom A" "set models \<subseteq> dom C"
  shows "dom A' = dom A \<and> dom C' = dom C"
  using assms(1) unfolding rank_record_closed [OF assms(2,3)] by (auto simp: dom_def)

text \<open>
  Claim C1. The ranking of one record, the body \<open>rank_record\<close> of the loop over the
  records, for pairwise different model names. The loop starts from two dicts keyed by the
  models (\<open>dom_dict_init\<close>) and the body keeps the keys, so the two hypotheses on the
  dicts hold at every record. The body returns, and with \<open>present\<close> the models that have a
  value in the record and \<open>rank m\<close> the amount added to \<^verbatim>\<open>rank_accum[m]\<close>:
  \<^item> \<open>rank\<close> is a bijection from \<open>present\<close> onto \<open>1..k\<close>, \<open>k\<close> the number of present models,
    and \<^verbatim>\<open>rank_count[m]\<close> grows by one for each of them;
  \<^item> ranks ascend with the value, and of two models with equal values the one earlier in
    the model list gets the smaller rank;
  \<^item> for a model without a value in the record neither dict changes.
\<close>

theorem rank_record_ranks:
  assumes "distinct models" "set models \<subseteq> dom rank_accum" "set models \<subseteq> dom rank_count"
  shows "\<exists>acc' cnt'.
     rank_record models r (rank_accum, rank_count) = Inr (acc', cnt') \<and>
     dom acc' = dom rank_accum \<and> dom cnt' = dom rank_count \<and>
     (let present = {m \<in> set models. dict_get (values r) m \<noteq> None};
          val = (\<lambda>m. the (dict_get (values r) m));
          rank = (\<lambda>m. the (acc' m) - the (rank_accum m))
      in bij_betw rank present {1..int (card present)} \<and>
         (\<forall>m \<in> present. cnt' m = Some (the (rank_count m) + 1)) \<and>
         (\<forall>i j. i < length models \<and> j < length models \<and>
                models ! i \<in> present \<and> models ! j \<in> present \<and>
                (val (models ! i) < val (models ! j) \<or>
                 val (models ! i) = val (models ! j) \<and> i < j)
                \<longrightarrow> rank (models ! i) < rank (models ! j)) \<and>
         (\<forall>m. m \<notin> present \<longrightarrow> acc' m = rank_accum m \<and> cnt' m = rank_count m))"
proof -
  let ?ys = "ranked_vals models r" and ?xs = "present_vals models r"
  let ?A = "\<lambda>k. map_option (\<lambda>a. a + rank_sum 0 ?ys k) (rank_accum k)"
  let ?C = "\<lambda>k. map_option (\<lambda>c. c + rank_hits ?ys k) (rank_count k)"
  let ?present = "{m \<in> set models. dict_get (values r) m \<noteq> None}"
  let ?val = "\<lambda>m. the (dict_get (values r) m)"
  let ?rank = "\<lambda>m. the (?A m) - the (rank_accum m)"
  have run: "rank_record models r (rank_accum, rank_count) = Inr (?A, ?C)"
    using assms(2,3) by (rule rank_record_closed)
  have dk: "distinct (map fst ?ys)" using assms(1) by (rule distinct_ranked_keys)
  have dx: "distinct ?xs" using assms(1) by (rule distinct_present)
  have keys: "fst ` set ?ys = ?present" by (rule ranked_key_set)
  have len: "length ?ys = card ?present" using assms(1) by (rule length_ranked)
  have rk: "?rank m = rank_sum 0 ?ys m" if "m \<in> set models" for m
  proof -
    from that assms(2) obtain a where "rank_accum m = Some a" by auto
    then show ?thesis by simp
  qed
  have pm: "m \<in> set models" if "m \<in> ?present" for m using that by simp
  have at: "\<exists>p < length ?ys. m = fst (?ys ! p) \<and> ?rank m = int p + 1" if "m \<in> ?present" for m
  proof -
    from that keys have "m \<in> set (map fst ?ys)" by (simp only: set_map)
    then obtain p where "p < length (map fst ?ys)" "map fst ?ys ! p = m"
      unfolding in_set_conv_nth by blast
    then have p: "p < length ?ys" "m = fst (?ys ! p)" by simp_all
    have "rank_sum 0 ?ys (fst (?ys ! p)) = int 0 + int p + 1" using dk p(1) by (rule rank_sum_nth)
    then have "?rank m = int p + 1" using rk [OF pm [OF that]] p(2) by simp
    then show ?thesis using p by blast
  qed
  have bij: "bij_betw ?rank ?present {1..int (card ?present)}"
  proof (rule bij_betwI')
    fix x y assume x: "x \<in> ?present" and y: "y \<in> ?present"
    from at [OF x] obtain p where p: "p < length ?ys" "x = fst (?ys ! p)" "?rank x = int p + 1"
      by blast
    from at [OF y] obtain q where q: "q < length ?ys" "y = fst (?ys ! q)" "?rank y = int q + 1"
      by blast
    show "(?rank x = ?rank y) = (x = y)"
    proof
      assume "?rank x = ?rank y"
      then have "p = q" using p(3) q(3) by simp
      then show "x = y" using p(2) q(2) by simp
    next
      assume "x = y"
      then show "?rank x = ?rank y" by simp
    qed
  next
    fix x assume x: "x \<in> ?present"
    from at [OF x] obtain p where p: "p < length ?ys" "?rank x = int p + 1" by blast
    then show "?rank x \<in> {1..int (card ?present)}" using len by simp
  next
    fix t assume t: "t \<in> {1..int (card ?present)}"
    let ?p = "nat (t - 1)"
    have p: "?p < length ?ys" using t len by auto
    let ?m = "fst (?ys ! ?p)"
    have m: "?m \<in> ?present" using keys p by (metis image_eqI nth_mem)
    have "rank_sum 0 ?ys ?m = int 0 + int ?p + 1" using dk p by (rule rank_sum_nth)
    then have "t = ?rank ?m" using rk [OF pm [OF m]] t by simp
    then show "\<exists>x \<in> ?present. t = ?rank x" using m by (rule rev_bexI [rotated])
  qed
  have cnt: "?C m = Some (the (rank_count m) + 1)" if "m \<in> ?present" for m
  proof -
    from pm [OF that] assms(3) obtain c where c: "rank_count m = Some c" by auto
    have "rank_hits ?ys m = 1" using dk that keys by (intro rank_hits_distinct) simp_all
    then show ?thesis using c by simp
  qed
  have ord: "?rank (models ! i) < ?rank (models ! j)"
    if h: "i < length models \<and> j < length models \<and>
           models ! i \<in> ?present \<and> models ! j \<in> ?present \<and>
           (?val (models ! i) < ?val (models ! j) \<or>
            ?val (models ! i) = ?val (models ! j) \<and> i < j)" for i j
  proof -
    let ?a = "(models ! i, ?val (models ! i))" and ?b = "(models ! j, ?val (models ! j))"
    have gi: "dict_get (values r) (models ! i) = Some (?val (models ! i))"
      and gj: "dict_get (values r) (models ! j) = Some (?val (models ! j))"
      using h by auto
    have ia: "?a \<in> set ?xs" and ib: "?b \<in> set ?xs"
      using h gi gj by (simp_all add: set_present_vals)
    have "before ?ys ?a ?b"
    proof (cases "?val (models ! i) < ?val (models ! j)")
      case True
      have "snd ?a < snd ?b" using True by simp
      with dx ia ib show ?thesis unfolding ranked_vals_def by (rule sort_key_before_less)
    next
      case False
      then have e: "?val (models ! i) = ?val (models ! j)" and ij: "i < j" using h by auto
      have jl: "j < length models" using h by simp
      have b: "before ?xs ?a ?b" using ij jl gi gj by (rule before_present)
      have "snd ?a \<le> snd ?b" using e by simp
      with dx b show ?thesis unfolding ranked_vals_def by (rule sort_key_before)
    qed
    with dk have "rank_sum 0 ?ys (fst ?a) < rank_sum 0 ?ys (fst ?b)" by (rule rank_sum_before)
    then show ?thesis using rk [of "models ! i"] rk [of "models ! j"] h by simp
  qed
  have abs: "?A m = rank_accum m \<and> ?C m = rank_count m" if "m \<notin> ?present" for m
  proof -
    from that keys have "m \<notin> fst ` set ?ys" by simp
    then have "rank_sum 0 ?ys m = 0" "rank_hits ?ys m = 0"
      by (simp_all add: rank_sum_absent rank_hits_absent)
    then show ?thesis by (simp add: option.map_ident)
  qed
  have dom: "dom ?A = dom rank_accum \<and> dom ?C = dom rank_count"
    by (auto simp: dom_def)
  show ?thesis
  proof (intro exI conjI)
    show "rank_record models r (rank_accum, rank_count) = Inr (?A, ?C)" by (rule run)
    show "dom ?A = dom rank_accum" "dom ?C = dom rank_count" using dom by simp_all
    show "let present = ?present; val = ?val; rank = ?rank
      in bij_betw rank present {1..int (card present)} \<and>
         (\<forall>m \<in> present. ?C m = Some (the (rank_count m) + 1)) \<and>
         (\<forall>i j. i < length models \<and> j < length models \<and>
                models ! i \<in> present \<and> models ! j \<in> present \<and>
                (val (models ! i) < val (models ! j) \<or>
                 val (models ! i) = val (models ! j) \<and> i < j)
                \<longrightarrow> rank (models ! i) < rank (models ! j)) \<and>
         (\<forall>m. m \<notin> present \<longrightarrow> ?A m = rank_accum m \<and> ?C m = rank_count m)"
      unfolding Let_def using bij cnt ord abs by blast
  qed
qed

theorem rank_record_ranks_witness:
  "distinct [''A'', ''B'', ''C''] \<and>
   set [''A'', ''B'', ''C''] \<subseteq> dom (dict_init [''A'', ''B'', ''C''] (0::int)) \<and>
   (\<exists>acc' cnt'.
      rank_record [''A'', ''B'', ''C'']
        \<lparr>subdataset = ''s1'', frequency = ''H'', cutoff = ''2026-01-01-00'',
         values = [(''A'', Some 2), (''B'', Some 1), (''C'', None)]\<rparr>
        (dict_init [''A'', ''B'', ''C''] 0, dict_init [''A'', ''B'', ''C''] 0) = Inr (acc', cnt') \<and>
      the (acc' ''B'') < the (acc' ''A'') \<and>
      acc' ''C'' = Some 0 \<and> cnt' ''C'' = Some 0 \<and> cnt' ''A'' = Some 1)"
proof -
  let ?ms = "[''A'', ''B'', ''C'']"
  let ?r = "\<lparr>subdataset = ''s1'', frequency = ''H'', cutoff = ''2026-01-01-00'',
         values = [(''A'', Some (2::rat)), (''B'', Some 1), (''C'', None)]\<rparr>"
  let ?d = "dict_init ?ms (0::int)"
  have d: "distinct ?ms" by simp
  have s: "set ?ms \<subseteq> dom ?d" by simp
  have v: "dict_get (values ?r) ''A'' = Some 2" "dict_get (values ?r) ''B'' = Some 1"
    "dict_get (values ?r) ''C'' = None"
    by (simp_all add: dict_get_def)
  have z: "?d ''A'' = Some 0" "?d ''B'' = Some 0" "?d ''C'' = Some 0"
    by (simp_all add: dict_init_apply)
  from rank_record_ranks [OF d s s, of ?r]
  obtain acc' cnt' where run: "rank_record ?ms ?r (?d, ?d) = Inr (acc', cnt')"
    and cnt: "\<forall>m \<in> {m \<in> set ?ms. dict_get (values ?r) m \<noteq> None}.
        cnt' m = Some (the (?d m) + 1)"
    and ord: "\<forall>i j. i < length ?ms \<and> j < length ?ms \<and>
                ?ms ! i \<in> {m \<in> set ?ms. dict_get (values ?r) m \<noteq> None} \<and>
                ?ms ! j \<in> {m \<in> set ?ms. dict_get (values ?r) m \<noteq> None} \<and>
                (the (dict_get (values ?r) (?ms ! i)) < the (dict_get (values ?r) (?ms ! j)) \<or>
                 the (dict_get (values ?r) (?ms ! i)) = the (dict_get (values ?r) (?ms ! j))
                   \<and> i < j)
                \<longrightarrow> the (acc' (?ms ! i)) - the (?d (?ms ! i))
                    < the (acc' (?ms ! j)) - the (?d (?ms ! j))"
    and abs: "\<forall>m. m \<notin> {m \<in> set ?ms. dict_get (values ?r) m \<noteq> None}
        \<longrightarrow> acc' m = ?d m \<and> cnt' m = ?d m"
    unfolding Let_def by blast
  have 1: "the (acc' ''B'') < the (acc' ''A'')"
    using ord [rule_format, of 1 0] v z by simp
  have 2: "acc' ''C'' = Some 0" "cnt' ''C'' = Some 0"
    using abs [rule_format, of "''C''"] v z by simp_all
  have 3: "cnt' ''A'' = Some 1"
    using cnt [rule_format, of "''A''"] v z by simp
  show ?thesis using d s run 1 2 3 by blast
qed

subsection \<open>Summary aggregator: entries, order and medals\<close>

lemma avg_metric_of_apply:
  "k \<in> set models \<Longrightarrow> avg_metric_of records models k = Some (avg_of (values_of records k))"
  by (simp add: avg_metric_of_def avg_of_hits)

lemma avg_rank_of_apply:
  "k \<in> set models \<Longrightarrow> avg_rank_of records models k = Some (mean_rank records models k)"
  by (simp add: avg_rank_of_def mean_rank_def)

lemma scored_entry_of_closed:
  "m \<in> set models \<Longrightarrow>
   scored_entry_of (avg_metric_of mase models) (avg_rank_of mase models)
     (avg_metric_of crps models) (avg_rank_of crps models) m
   = Inr (scored_of mase crps models m)"
  by (simp add: scored_entry_of_def scored_of_def avg_metric_of_apply avg_rank_of_apply)

lemma entries_loop:
  "set ms \<subseteq> set models \<Longrightarrow>
   efold (\<lambda>m summary.
       ebind (scored_entry_of (avg_metric_of mase models) (avg_rank_of mase models)
                (avg_metric_of crps models) (avg_rank_of crps models) m)
         (\<lambda>e. Inr (summary @ [e]))) ms acc
   = Inr (acc @ map (scored_of mase crps models) ms)"
  by (induction ms arbitrary: acc) (simp_all add: scored_entry_of_closed)

lemma compute_summary_closed:
  "compute_summary mase crps models =
     Inr (map decorate (enumerate 0 (sort_key combined (map (scored_of mase crps models) models))))"
  using entries_loop [of models models mase crps "[]"]
  by (simp add: compute_summary_def avg_metric_and_rank_closed)




















lemma summary_length:
  "compute_summary mase crps models = Inr summary \<Longrightarrow> length summary = length models"
  by (auto simp: compute_summary_closed)



lemma MODELS_distinct: "distinct MODELS"
  by (simp add: MODELS_def)




subsection \<open>Time-window filter and dataset assembly\<close>

lemma efilter_Inr_iff:
  "efilter p xs = Inr ys \<longleftrightarrow>
     (\<forall>x \<in> set xs. \<exists>b. p x = Inr b) \<and> ys = filter (\<lambda>x. p x = Inr True) xs"
proof (induction xs arbitrary: ys)
  case Nil
  then show ?case by auto
next
  case (Cons x xs)
  show ?case
  proof (cases "p x")
    case (Inl e)
    then show ?thesis by auto
  next
    case (Inr b)
    show ?thesis
    proof (cases "efilter p xs")
      case (Inl e)
      then have "\<not> (\<forall>x \<in> set xs. \<exists>b. p x = Inr b)" using Cons.IH by auto
      then show ?thesis using Inl Inr by auto
    next
      case r: (Inr zs)
      then have "(\<forall>x \<in> set xs. \<exists>b. p x = Inr b) \<and> zs = filter (\<lambda>x. p x = Inr True) xs"
        using Cons.IH by simp
      then show ?thesis using r Inr by (cases b) auto
    qed
  qed
qed

lemma is_within_Inr_iff:
  "is_within_3_months thr s = Inr b \<longleftrightarrow> (\<exists>dt. parse_date s = Inr dt \<and> b = (thr \<le> dt))"
  by (cases "parse_date s") (auto simp: is_within_3_months_def)

lemma is_within_total:
  "(\<exists>b. is_within_3_months thr s = Inr b) \<longleftrightarrow> (\<exists>dt. parse_date s = Inr dt)"
  by (cases "parse_date s") (auto simp: is_within_3_months_def)

lemma is_within_True:
  "is_within_3_months thr s = Inr True \<longleftrightarrow> (\<exists>dt. parse_date s = Inr dt \<and> thr \<le> dt)"
  by (cases "parse_date s") (auto simp: is_within_3_months_def)

lemma window_filter_Inr_iff:
  "efilter (\<lambda>r. is_within_3_months thr (cutoff r)) rs = Inr ys \<longleftrightarrow>
     (\<forall>r \<in> set rs. \<exists>dt. parse_date (cutoff r) = Inr dt) \<and>
     ys = filter (\<lambda>r. \<exists>dt. parse_date (cutoff r) = Inr dt \<and> thr \<le> dt) rs"
  by (simp add: efilter_Inr_iff is_within_total is_within_True)

lemma minus_days_Inr_iff:
  "minus_days dt n = Inr t \<longleftrightarrow> 0 < dt - n \<and> dt - n \<le> MAXORDINAL \<and> t = dt - n"
  by (auto simp: minus_days_def)

lemma last_sorted_Max:
  assumes "sorted ys" "ys \<noteq> []"
  shows "last ys = Max (set ys)"
proof (rule Max_eqI [symmetric])
  show "finite (set ys)" by simp
  show "last ys \<in> set ys" using assms(2) by simp
  fix y assume "y \<in> set ys"
  then obtain i where i: "i < length ys" "ys ! i = y" by (auto simp: in_set_conv_nth)
  have "ys ! i \<le> ys ! (length ys - 1)"
    using assms(1) i(1) by (intro sorted_nth_mono) auto
  then show "y \<le> last ys" using i(2) assms(2) by (simp add: last_conv_nth)
qed

lemma last_all_cutoffs:
  assumes "xs \<noteq> []"
  shows "last (sort (remdups xs)) = Max (set xs)"
proof -
  have "set (sort (remdups xs)) \<noteq> {}" using assms by simp
  then have "sort (remdups xs) \<noteq> []" by (simp only: set_empty not_False_eq_True)
  then have "last (sort (remdups xs)) = Max (set (sort (remdups xs)))"
    by (intro last_sorted_Max) simp_all
  then show ?thesis by simp
qed

lemma all_cutoffs_empty: "sort (remdups (map f xs)) = [] \<longleftrightarrow> xs = []"
proof -
  have "sort (remdups (map f xs)) = [] \<longleftrightarrow> set (sort (remdups (map f xs))) = {}"
    by (simp only: set_empty)
  then show ?thesis by simp
qed

lemma time_window_empty: "time_window [] [] = Inr ([], [])"
  by (simp add: time_window_def)

lemma ebind_Inr_iff: "ebind x f = Inr y \<longleftrightarrow> (\<exists>v. x = Inr v \<and> f v = Inr y)"
  by (cases x) simp_all

lemma time_window_Inr_iff:
  assumes "mase @ crps \<noteq> []"
  shows "time_window mase crps = Inr res \<longleftrightarrow>
     (\<exists>latest_date threshold.
        parse_date (Max (cutoff ` set (mase @ crps))) = Inr latest_date \<and>
        minus_days latest_date 90 = Inr threshold \<and>
        (\<forall>r \<in> set (mase @ crps). \<exists>dt. parse_date (cutoff r) = Inr dt) \<and>
        res = (filter (\<lambda>r. \<exists>dt. parse_date (cutoff r) = Inr dt \<and> threshold \<le> dt) mase,
               filter (\<lambda>r. \<exists>dt. parse_date (cutoff r) = Inr dt \<and> threshold \<le> dt) crps))"
proof -
  let ?cs = "sort (remdups (map cutoff (mase @ crps)))"
  have ne: "?cs \<noteq> []" using assms all_cutoffs_empty [of cutoff "mase @ crps"] by blast
  have "map cutoff (mase @ crps) \<noteq> []" using assms by simp
  then have "last ?cs = Max (set (map cutoff (mase @ crps)))" by (rule last_all_cutoffs)
  then have l: "last ?cs = Max (cutoff ` set (mase @ crps))" by (simp only: set_map)
  have "time_window mase crps =
      ebind (parse_date (Max (cutoff ` set (mase @ crps)))) (\<lambda>latest_date.
      ebind (minus_days latest_date 90) (\<lambda>cutoff_threshold.
      ebind (efilter (\<lambda>r. is_within_3_months cutoff_threshold (cutoff r)) mase) (\<lambda>m'.
      ebind (efilter (\<lambda>r. is_within_3_months cutoff_threshold (cutoff r)) crps) (\<lambda>c'.
        Inr (m', c')))))"
    unfolding time_window_def Let_def using ne l by simp
  then show ?thesis
    by (auto simp: ebind_Inr_iff window_filter_Inr_iff)
qed

lemma parse_date_parts:
  "split_on CHR ''-'' s = p0 # p1 # p2 # rest \<Longrightarrow>
   parse_date s =
     ebind (py_int p0) (\<lambda>y. ebind (py_int p1) (\<lambda>m. ebind (py_int p2) (\<lambda>d. datetime y m d)))"
  by (simp add: parse_date_def getitem_def)

lemma main_data_closed:
  "main_data mase crps =
     ebind (time_window mase crps) (\<lambda>(m', c').
       Inr \<lparr>data_models = MODELS,
            data_cutoffs = sort (remdups (map cutoff (m' @ c'))),
            data_subdatasets = sort (remdups (map subdataset (m' @ c'))),
            data_frequencies = sort (remdups (map frequency (m' @ c'))),
            data_mase = m', data_crps = c',
            data_summary = map decorate (enumerate 0 (sort_key combined
              (map (scored_of m' c' MODELS) MODELS)))\<rparr>)"
  by (simp add: main_data_def compute_summary_closed Let_def)

lemma main_data_Inr_iff:
  "main_data mase crps = Inr d \<longleftrightarrow>
     (\<exists>m' c'. time_window mase crps = Inr (m', c') \<and>
        d = \<lparr>data_models = MODELS,
            data_cutoffs = sort (remdups (map cutoff (m' @ c'))),
            data_subdatasets = sort (remdups (map subdataset (m' @ c'))),
            data_frequencies = sort (remdups (map frequency (m' @ c'))),
            data_mase = m', data_crps = c',
            data_summary = map decorate (enumerate 0 (sort_key combined
              (map (scored_of m' c' MODELS) MODELS)))\<rparr>)"
  unfolding main_data_closed by (auto simp: ebind_Inr_iff)

text \<open>
  Claim C5. With no record in either list the filter returns both lists as they are.
  Otherwise it returns exactly when the greatest cutoff string of the two lists together
  (\<^verbatim>\<open>all_cutoffs[-1]\<close> of the sorted set) parses as a date \<open>latest_date\<close>, the threshold
  \<open>latest_date - 90\<close> is still a day of the calendar, and every record's cutoff parses; and
  then each of the two lists is filtered on its own with that one threshold, keeping exactly
  the records whose cutoff date is at least the threshold. The date of a cutoff is read from
  its first three hyphen-separated parts, whatever follows (the hour) being ignored.
\<close>

theorem time_window_filter:
  "(mase @ crps = [] \<longrightarrow> time_window mase crps = Inr (mase, crps)) \<and>
   (mase @ crps \<noteq> [] \<longrightarrow>
      (\<forall>res. time_window mase crps = Inr res \<longleftrightarrow>
         (\<exists>latest_date threshold.
            parse_date (Max (cutoff ` set (mase @ crps))) = Inr latest_date \<and>
            minus_days latest_date 90 = Inr threshold \<and> threshold = latest_date - 90 \<and>
            (\<forall>r \<in> set (mase @ crps). \<exists>dt. parse_date (cutoff r) = Inr dt) \<and>
            res = (filter (\<lambda>r. \<exists>dt. parse_date (cutoff r) = Inr dt \<and> threshold \<le> dt) mase,
                   filter (\<lambda>r. \<exists>dt. parse_date (cutoff r) = Inr dt \<and> threshold \<le> dt) crps)))) \<and>
   (\<forall>s p0 p1 p2 rest. split_on CHR ''-'' s = p0 # p1 # p2 # rest \<longrightarrow>
      parse_date s =
        ebind (py_int p0) (\<lambda>y. ebind (py_int p1) (\<lambda>m. ebind (py_int p2) (\<lambda>d. datetime y m d))))"
proof (intro conjI impI allI)
  assume "mase @ crps = []"
  then show "time_window mase crps = Inr (mase, crps)" by (simp add: time_window_empty)
next
  fix res
  assume ne: "mase @ crps \<noteq> []"
  have "minus_days latest_date 90 = Inr threshold \<longleftrightarrow>
      minus_days latest_date 90 = Inr threshold \<and> threshold = latest_date - 90"
    for latest_date threshold
    by (auto simp: minus_days_Inr_iff)
  then show "time_window mase crps = Inr res \<longleftrightarrow>
         (\<exists>latest_date threshold.
            parse_date (Max (cutoff ` set (mase @ crps))) = Inr latest_date \<and>
            minus_days latest_date 90 = Inr threshold \<and> threshold = latest_date - 90 \<and>
            (\<forall>r \<in> set (mase @ crps). \<exists>dt. parse_date (cutoff r) = Inr dt) \<and>
            res = (filter (\<lambda>r. \<exists>dt. parse_date (cutoff r) = Inr dt \<and> threshold \<le> dt) mase,
                   filter (\<lambda>r. \<exists>dt. parse_date (cutoff r) = Inr dt \<and> threshold \<le> dt) crps))"
    unfolding time_window_Inr_iff [OF ne] by blast
next
  fix s p0 p1 p2 rest
  assume "split_on CHR ''-'' s = p0 # p1 # p2 # rest"
  then show "parse_date s =
        ebind (py_int p0) (\<lambda>y. ebind (py_int p1) (\<lambda>m. ebind (py_int p2) (\<lambda>d. datetime y m d)))"
    by (rule parse_date_parts)
qed

theorem time_window_filter_witness:
  "time_window [] [] = Inr ([], []) \<and>
   time_window
     [\<lparr>subdataset = ''s1'', frequency = ''H'', cutoff = ''2026-01-01-00'', values = [(''A'', Some 1)]\<rparr>,
      \<lparr>subdataset = ''s1'', frequency = ''H'', cutoff = ''2026-02-12-00'', values = [(''A'', Some 2)]\<rparr>]
     [\<lparr>subdataset = ''s1'', frequency = ''H'', cutoff = ''2025-10-01-00'', values = [(''A'', Some 3)]\<rparr>]
   = Inr ([\<lparr>subdataset = ''s1'', frequency = ''H'', cutoff = ''2026-01-01-00'', values = [(''A'', Some 1)]\<rparr>,
           \<lparr>subdataset = ''s1'', frequency = ''H'', cutoff = ''2026-02-12-00'', values = [(''A'', Some 2)]\<rparr>],
          []) \<and>
   parse_date ''2026-02-12-00'' = Inr 739659 \<and> minus_days 739659 90 = Inr 739569 \<and>
   datetime 2025 11 14 = Inr 739569 \<and>
   parse_date ''2026-02-12-23'' = parse_date ''2026-02-12-00'' \<and>
   (\<exists>latest_date threshold.
      parse_date (Max (cutoff ` set
        ([\<lparr>subdataset = ''s1'', frequency = ''H'', cutoff = ''2026-01-01-00'', values = [(''A'', Some (1::rat))]\<rparr>,
          \<lparr>subdataset = ''s1'', frequency = ''H'', cutoff = ''2026-02-12-00'', values = [(''A'', Some 2)]\<rparr>] @
         [\<lparr>subdataset = ''s1'', frequency = ''H'', cutoff = ''2025-10-01-00'', values = [(''A'', Some 3)]\<rparr>])))
        = Inr latest_date \<and>
      minus_days latest_date 90 = Inr threshold \<and> threshold = latest_date - 90)"
proof -
  let ?r1 = "\<lparr>subdataset = ''s1'', frequency = ''H'', cutoff = ''2026-01-01-00'',
    values = [(''A'', Some (1::rat))]\<rparr>"
  let ?r2 = "\<lparr>subdataset = ''s1'', frequency = ''H'', cutoff = ''2026-02-12-00'',
    values = [(''A'', Some (2::rat))]\<rparr>"
  let ?r3 = "\<lparr>subdataset = ''s1'', frequency = ''H'', cutoff = ''2025-10-01-00'',
    values = [(''A'', Some (3::rat))]\<rparr>"
  have e: "time_window [] [] = Inr ([], [])"
    using time_window_filter [of "[]" "[]"] by simp
  have t: "time_window [?r1, ?r2] [?r3] = Inr ([?r1, ?r2], [])" by code_simp
  have ne: "[?r1, ?r2] @ [?r3] \<noteq> []" by simp
  have c: "parse_date ''2026-02-12-00'' = Inr 739659" "minus_days 739659 90 = Inr 739569"
    "datetime 2025 11 14 = Inr 739569"
    by code_simp+
  have s: "split_on CHR ''-'' ''2026-02-12-23'' = [''2026'', ''02'', ''12'', ''23'']"
    "split_on CHR ''-'' ''2026-02-12-00'' = [''2026'', ''02'', ''12'', ''00'']"
    by code_simp+
  have h: "parse_date ''2026-02-12-23'' = parse_date ''2026-02-12-00''"
    using time_window_filter [of "[]" "[]", THEN conjunct2, THEN conjunct2, rule_format, OF s(1)]
      time_window_filter [of "[]" "[]", THEN conjunct2, THEN conjunct2, rule_format, OF s(2)]
    by simp
  from time_window_filter [of "[?r1, ?r2]" "[?r3]"] ne t
  obtain latest_date threshold where
    "parse_date (Max (cutoff ` set ([?r1, ?r2] @ [?r3]))) = Inr latest_date"
    "minus_days latest_date 90 = Inr threshold" "threshold = latest_date - 90"
    by blast
  then show ?thesis using e t c h by blast
qed

text \<open>
  Claim C6. In a dataset produced by \<^verbatim>\<open>main\<close>, the fields \<open>mase\<close> and \<open>crps\<close> are the two
  lists that the time-window filter returns, and each of \<open>cutoffs\<close>, \<open>subdatasets\<close> and
  \<open>frequencies\<close> is sorted, free of duplicates, and has as its elements exactly the values of
  the corresponding field over those two filtered lists.
\<close>

theorem dataset_domains:
  assumes "main_data mase crps = Inr d"
  shows "time_window mase crps = Inr (data_mase d, data_crps d) \<and>
     set (data_cutoffs d) = cutoff ` (set (data_mase d) \<union> set (data_crps d)) \<and>
     sorted (data_cutoffs d) \<and> distinct (data_cutoffs d) \<and>
     set (data_subdatasets d) = subdataset ` (set (data_mase d) \<union> set (data_crps d)) \<and>
     sorted (data_subdatasets d) \<and> distinct (data_subdatasets d) \<and>
     set (data_frequencies d) = frequency ` (set (data_mase d) \<union> set (data_crps d)) \<and>
     sorted (data_frequencies d) \<and> distinct (data_frequencies d)"
proof -
  from assms obtain m' c' where t: "time_window mase crps = Inr (m', c')"
    and d: "d = \<lparr>data_models = MODELS,
            data_cutoffs = sort (remdups (map cutoff (m' @ c'))),
            data_subdatasets = sort (remdups (map subdataset (m' @ c'))),
            data_frequencies = sort (remdups (map frequency (m' @ c'))),
            data_mase = m', data_crps = c',
            data_summary = map decorate (enumerate 0 (sort_key combined
              (map (scored_of m' c' MODELS) MODELS)))\<rparr>"
    unfolding main_data_Inr_iff by blast
  show ?thesis using t by (simp add: d image_Un)
qed

theorem dataset_domains_witness:
  "\<exists>d. main_data
     [\<lparr>subdataset = ''s1'', frequency = ''H'', cutoff = ''2026-01-01-00'', values = [(''Chronos'', Some 1)]\<rparr>,
      \<lparr>subdataset = ''s2'', frequency = ''D'', cutoff = ''2026-02-12-00'', values = [(''Chronos'', Some 2)]\<rparr>]
     [\<lparr>subdataset = ''s3'', frequency = ''W'', cutoff = ''2025-10-01-00'', values = [(''Chronos'', Some 3)]\<rparr>,
      \<lparr>subdataset = ''s1'', frequency = ''H'', cutoff = ''2026-01-01-00'', values = [(''Chronos'', Some 4)]\<rparr>]
     = Inr d \<and>
     data_cutoffs d = [''2026-01-01-00'', ''2026-02-12-00''] \<and>
     data_subdatasets d = [''s1'', ''s2''] \<and> data_frequencies d = [''D'', ''H''] \<and>
     set (data_cutoffs d) = cutoff ` (set (data_mase d) \<union> set (data_crps d)) \<and>
     sorted (data_cutoffs d) \<and> distinct (data_cutoffs d)"
proof -
  let ?mase = "[\<lparr>subdataset = ''s1'', frequency = ''H'', cutoff = ''2026-01-01-00'', values = [(''Chronos'', Some (1::rat))]\<rparr>,
      \<lparr>subdataset = ''s2'', frequency = ''D'', cutoff = ''2026-02-12-00'', values = [(''Chronos'', Some 2)]\<rparr>]"
  let ?crps = "[\<lparr>subdataset = ''s3'', frequency = ''W'', cutoff = ''2025-10-01-00'', values = [(''Chronos'', Some (3::rat))]\<rparr>,
      \<lparr>subdataset = ''s1'', frequency = ''H'', cutoff = ''2026-01-01-00'', values = [(''Chronos'', Some 4)]\<rparr>]"
  have t: "case main_data ?mase ?crps of
      Inl e \<Rightarrow> False
    | Inr d \<Rightarrow> data_cutoffs d = [''2026-01-01-00'', ''2026-02-12-00''] \<and>
        data_subdatasets d = [''s1'', ''s2''] \<and> data_frequencies d = [''D'', ''H'']"
    by code_simp
  then obtain d where d: "main_data ?mase ?crps = Inr d"
    by (cases "main_data ?mase ?crps") auto
  have v: "data_cutoffs d = [''2026-01-01-00'', ''2026-02-12-00'']"
    "data_subdatasets d = [''s1'', ''s2'']" "data_frequencies d = [''D'', ''H'']"
    using t d by simp_all
  from dataset_domains [OF d]
  have "set (data_cutoffs d) = cutoff ` (set (data_mase d) \<union> set (data_crps d))"
    "sorted (data_cutoffs d)" "distinct (data_cutoffs d)"
    by blast+
  then show ?thesis using d v by blast
qed

lemma filter_keeps_latest:
  assumes "parse_date (cutoff r) = Inr latest_date" "r \<in> set rs"
  shows "r \<in> set (filter (\<lambda>r. \<exists>dt. parse_date (cutoff r) = Inr dt \<and> latest_date - 90 \<le> dt) rs)"
  using assms by simp

text \<open>
  Claim C10. When \<^verbatim>\<open>main\<close> produces a dataset from record lists that are not both empty,
  the greatest cutoff string \<open>latest\<close> has a date that is the threshold plus 90 days, every
  record with that cutoff is kept in its list, at least one such record exists, so the
  filtered lists are not both empty, and \<open>cutoffs\<close> is not empty and contains \<open>latest\<close>.
\<close>

theorem latest_cutoff_retained:
  assumes "main_data mase crps = Inr d" "mase @ crps \<noteq> []"
  shows "\<exists>latest latest_date threshold.
     latest = Max (cutoff ` set (mase @ crps)) \<and>
     parse_date latest = Inr latest_date \<and> minus_days latest_date 90 = Inr threshold \<and>
     latest_date = threshold + 90 \<and>
     (\<forall>r \<in> set mase. cutoff r = latest \<longrightarrow> r \<in> set (data_mase d)) \<and>
     (\<forall>r \<in> set crps. cutoff r = latest \<longrightarrow> r \<in> set (data_crps d)) \<and>
     (\<exists>r \<in> set (data_mase d @ data_crps d). cutoff r = latest) \<and>
     data_mase d @ data_crps d \<noteq> [] \<and>
     data_cutoffs d \<noteq> [] \<and> latest \<in> set (data_cutoffs d)"
proof -
  let ?latest = "Max (cutoff ` set (mase @ crps))"
  from assms(1) obtain m' c' where t: "time_window mase crps = Inr (m', c')"
    and d: "d = \<lparr>data_models = MODELS,
            data_cutoffs = sort (remdups (map cutoff (m' @ c'))),
            data_subdatasets = sort (remdups (map subdataset (m' @ c'))),
            data_frequencies = sort (remdups (map frequency (m' @ c'))),
            data_mase = m', data_crps = c',
            data_summary = map decorate (enumerate 0 (sort_key combined
              (map (scored_of m' c' MODELS) MODELS)))\<rparr>"
    unfolding main_data_Inr_iff by blast
  from t obtain latest_date threshold where
    p: "parse_date ?latest = Inr latest_date"
    and m: "minus_days latest_date 90 = Inr threshold"
    and m': "m' = filter (\<lambda>r. \<exists>dt. parse_date (cutoff r) = Inr dt \<and> threshold \<le> dt) mase"
    and c': "c' = filter (\<lambda>r. \<exists>dt. parse_date (cutoff r) = Inr dt \<and> threshold \<le> dt) crps"
    unfolding time_window_Inr_iff [OF assms(2)] by blast
  have th: "threshold = latest_date - 90" using m by (simp add: minus_days_Inr_iff)
  have km: "r \<in> set m'" if "r \<in> set mase" "cutoff r = ?latest" for r
    using that p by (simp add: m' th)
  have kc: "r \<in> set c'" if "r \<in> set crps" "cutoff r = ?latest" for r
    using that p by (simp add: c' th)
  have "?latest \<in> cutoff ` set (mase @ crps)"
    using assms(2) by (intro Max_in) simp_all
  then obtain r where r: "r \<in> set (mase @ crps)" "cutoff r = ?latest"
    unfolding image_iff by metis
  have rin: "r \<in> set (m' @ c')" using km [of r] kc [of r] r by auto
  then have ne: "m' @ c' \<noteq> []" by auto
  have "cutoff r \<in> cutoff ` set (m' @ c')" using rin by (rule imageI)
  then have "cutoff r \<in> set (sort (remdups (map cutoff (m' @ c'))))"
    by (simp only: set_sort set_remdups set_map)
  then have lin: "?latest \<in> set (sort (remdups (map cutoff (m' @ c'))))"
    by (simp only: r(2))
  have cne: "sort (remdups (map cutoff (m' @ c'))) \<noteq> []"
    using ne all_cutoffs_empty [of cutoff "m' @ c'"] by blast
  show ?thesis
  proof (intro exI conjI)
    show "?latest = Max (cutoff ` set (mase @ crps))" ..
    show "parse_date ?latest = Inr latest_date" by (rule p)
    show "minus_days latest_date 90 = Inr threshold" by (rule m)
    show "latest_date = threshold + 90" using th by simp
    show "\<forall>r \<in> set mase. cutoff r = ?latest \<longrightarrow> r \<in> set (data_mase d)"
      using km by (simp add: d)
    show "\<forall>r \<in> set crps. cutoff r = ?latest \<longrightarrow> r \<in> set (data_crps d)"
      using kc by (simp add: d)
    have "r \<in> set (data_mase d @ data_crps d)" using rin by (simp add: d)
    then show "\<exists>r \<in> set (data_mase d @ data_crps d). cutoff r = ?latest"
      using r(2) by (rule rev_bexI)
    show "data_mase d @ data_crps d \<noteq> []" using ne by (simp add: d)
    show "data_cutoffs d \<noteq> []" using cne by (simp add: d)
    show "?latest \<in> set (data_cutoffs d)" using lin by (simp add: d)
  qed
qed

theorem latest_cutoff_retained_witness:
  "[\<lparr>subdataset = ''s1'', frequency = ''H'', cutoff = ''2025-10-01-00'', values = [(''Chronos'', Some (1::rat))]\<rparr>]
     @ [\<lparr>subdataset = ''s1'', frequency = ''H'', cutoff = ''2026-02-12-00'', values = [(''Chronos'', Some 2)]\<rparr>]
     \<noteq> [] \<and>
   (\<exists>d. main_data
     [\<lparr>subdataset = ''s1'', frequency = ''H'', cutoff = ''2025-10-01-00'', values = [(''Chronos'', Some 1)]\<rparr>]
     [\<lparr>subdataset = ''s1'', frequency = ''H'', cutoff = ''2026-02-12-00'', values = [(''Chronos'', Some 2)]\<rparr>]
     = Inr d \<and>
     data_mase d = [] \<and>
     data_crps d = [\<lparr>subdataset = ''s1'', frequency = ''H'', cutoff = ''2026-02-12-00'', values = [(''Chronos'', Some 2)]\<rparr>] \<and>
     data_cutoffs d = [''2026-02-12-00''] \<and>
     data_mase d @ data_crps d \<noteq> [] \<and> data_cutoffs d \<noteq> [])"
proof -
  let ?mase = "[\<lparr>subdataset = ''s1'', frequency = ''H'', cutoff = ''2025-10-01-00'', values = [(''Chronos'', Some (1::rat))]\<rparr>]"
  let ?crps = "[\<lparr>subdataset = ''s1'', frequency = ''H'', cutoff = ''2026-02-12-00'', values = [(''Chronos'', Some (2::rat))]\<rparr>]"
  have ne: "?mase @ ?crps \<noteq> []" by simp
  have t: "case main_data ?mase ?crps of
      Inl e \<Rightarrow> False
    | Inr d \<Rightarrow> data_mase d = [] \<and> data_crps d = ?crps \<and> data_cutoffs d = [''2026-02-12-00'']"
    by code_simp
  then obtain d where d: "main_data ?mase ?crps = Inr d"
    by (cases "main_data ?mase ?crps") auto
  have v: "data_mase d = []" "data_crps d = ?crps" "data_cutoffs d = [''2026-02-12-00'']"
    using t d by simp_all
  from latest_cutoff_retained [OF d ne]
  have "data_mase d @ data_crps d \<noteq> []" "data_cutoffs d \<noteq> []" by blast+
  then show ?thesis using ne d v by blast
qed

end
